theory Spec2Isabelle
  imports Main "HOL-Library.Monad_Syntax"
begin

section \<open>Memory: nodes of the connection ring\<close>

text \<open>
  Pointers are addresses; address \<open>0\<close> is \<open>nullptr\<close>. A \<open>node<Func>\<close> (with its
  \<open>node_base\<close> part) is a record of the two ring links and the stored function, where
  \<open>None\<close> is the empty \<open>std::function\<close>. The heap maps the addresses of live nodes to
  their contents; reading or writing through any other address is undefined behaviour in
  C++ and is reported as \<open>None\<close> by the heap operations.
\<close>

type_synonym addr = nat

record 'f node =
  m_next :: addr
  m_prev :: addr
  m_function :: "'f option"

type_synonym 'f heap = "addr \<Rightarrow> 'f node option"

definition load_next :: "'f heap \<Rightarrow> addr \<Rightarrow> addr option" where
  "load_next h p = map_option m_next (h p)"

definition load_prev :: "'f heap \<Rightarrow> addr \<Rightarrow> addr option" where
  "load_prev h p = map_option m_prev (h p)"

definition load_function :: "'f heap \<Rightarrow> addr \<Rightarrow> 'f option option" where
  "load_function h p = map_option m_function (h p)"

definition store_next :: "addr \<Rightarrow> addr \<Rightarrow> 'f heap \<Rightarrow> 'f heap option" where
  "store_next p v h = (case h p of None \<Rightarrow> None | Some N \<Rightarrow> Some (h(p \<mapsto> N\<lparr>m_next := v\<rparr>)))"

definition store_prev :: "addr \<Rightarrow> addr \<Rightarrow> 'f heap \<Rightarrow> 'f heap option" where
  "store_prev p v h = (case h p of None \<Rightarrow> None | Some N \<Rightarrow> Some (h(p \<mapsto> N\<lparr>m_prev := v\<rparr>)))"

text \<open>\<open>node_base::insert\<close>: splice \<open>node\<close> immediately before \<open>pos\<close> (the receiver).\<close>

definition insert_node :: "addr \<Rightarrow> addr \<Rightarrow> 'f heap \<Rightarrow> 'f heap option" where
  "insert_node pos node h =
     (if node \<noteq> 0 then do {
        a \<leftarrow> load_prev h pos;
        h1 \<leftarrow> store_prev node a h;
        h2 \<leftarrow> store_next node pos h1;
        b \<leftarrow> load_prev h2 pos;
        h3 \<leftarrow> store_next b node h2;
        store_prev pos node h3
      } else Some h)"

text \<open>\<open>node_base::extract\<close>: unlink the receiver from its ring and null its own links.\<close>

definition extract_node :: "addr \<Rightarrow> 'f heap \<Rightarrow> 'f heap option" where
  "extract_node p h = do {
     n \<leftarrow> load_next h p;
     a \<leftarrow> load_prev h p;
     h1 \<leftarrow> store_prev n a h;
     a' \<leftarrow> load_prev h1 p;
     n' \<leftarrow> load_next h1 p;
     h2 \<leftarrow> store_next a' n' h1;
     h3 \<leftarrow> store_next p 0 h2;
     store_prev p 0 h3
   }"

text \<open>\<open>node::deactivate\<close>: \<open>m_function = nullptr\<close>; the links are not touched.\<close>

definition deactivate :: "addr \<Rightarrow> 'f heap \<Rightarrow> 'f heap option" where
  "deactivate p h = (case h p of None \<Rightarrow> None | Some N \<Rightarrow> Some (h(p \<mapsto> N\<lparr>m_function := None\<rparr>)))"

text \<open>\<open>delete p\<close> for a live node.\<close>

definition delete_node :: "addr \<Rightarrow> 'f heap \<Rightarrow> 'f heap" where
  "delete_node p h = h(p := None)"


section \<open>The signal object\<close>

text \<open>
  The state of the program as far as one signal is concerned: the heap, the allocator's
  next fresh address \<open>lim\<close> (\<open>new\<close> hands out increasing addresses), the address \<open>this\<close>
  of the signal object, and the three members of \<open>signal_base\<close>. \<open>m_recursionDepth\<close> is a
  \<open>std::size_t\<close> that counts stack frames; it is a natural number here, since a wrap-around
  would need more nested frames than any address space holds. The field \<open>user\<close> is the
  state of the surrounding program that slots read and write. The field \<open>events\<close> is a
  ghost log of the slot calls made by \<open>emit\<close>; no operation reads it.
\<close>

record ('f, 'u, 'ev) world =
  heap :: "'f heap"
  lim :: addr
  this :: addr
  m_head :: addr
  m_recursionDepth :: nat
  m_deactivations :: bool
  user :: 'u
  events :: "'ev list"

datatype error = Memory_fault | Slot_error string | Out_of_fuel

type_synonym connection_handler = "addr \<times> addr"

text \<open>
  \<open>new node_type{f}\<close>: the constructor of \<open>node_base\<close> links the node to itself. The
  allocator hands out the next address above all addresses used so far; unlike
  \<open>operator new\<close> it never hands out the address of a freed node again, so nothing is proved
  here about a handle that is used after its node was freed and another node was connected.
\<close>

definition new_node :: "'f option \<Rightarrow> ('f, 'u, 'ev) world \<Rightarrow> addr \<times> ('f, 'u, 'ev) world" where
  "new_node f w =
     (lim w, w\<lparr>heap := (heap w)(lim w \<mapsto> \<lparr>m_next = lim w, m_prev = lim w, m_function = f\<rparr>),
               lim := Suc (lim w)\<rparr>)"

text \<open>\<open>signal::connect(slot_type f)\<close>.\<close>

definition connect ::
  "'f option \<Rightarrow> ('f, 'u, 'ev) world \<Rightarrow> (error + connection_handler) \<times> ('f, 'u, 'ev) world" where
  "connect f w =
     (let w1 = (if m_head w = 0
                then (let (p, w') = new_node None w in w'\<lparr>m_head := p\<rparr>)
                else w);
          (q, w2) = new_node f w1
      in case insert_node (m_head w2) q (heap w2) of
           None \<Rightarrow> (Inl Memory_fault, w2)
         | Some h \<Rightarrow> (Inr (this w2, q), w2\<lparr>heap := h\<rparr>))"



text \<open>
  The scan of \<open>signal_base::disconnect(void*)\<close>:
  \<open>while (node != m_head.get() && node != id) node = node->next();\<close>
  It returns the final value of \<open>node\<close>. The loop need not end on a heap that holds no
  ring, so it runs on fuel.
\<close>

fun disconnect_scan :: "nat \<Rightarrow> 'f heap \<Rightarrow> addr \<Rightarrow> addr \<Rightarrow> addr \<Rightarrow> error + addr" where
  "disconnect_scan 0 h head ident node = Inl Out_of_fuel"
| "disconnect_scan (Suc n) h head ident node =
     (if node \<noteq> head \<and> node \<noteq> ident
      then (case load_next h node of
              None \<Rightarrow> Inl Memory_fault
            | Some nx \<Rightarrow> disconnect_scan n h head ident nx)
      else Inr node)"

text \<open>\<open>signal_base::disconnect(void* id)\<close>.\<close>

definition disconnect_id ::
  "nat \<Rightarrow> addr \<Rightarrow> ('f, 'u, 'ev) world \<Rightarrow> (error + bool) \<times> ('f, 'u, 'ev) world" where
  "disconnect_id n ident w =
     (if m_head w \<noteq> 0 then
        (case load_next (heap w) (m_head w) of
           None \<Rightarrow> (Inl Memory_fault, w)
         | Some first \<Rightarrow>
            (case disconnect_scan n (heap w) (m_head w) ident first of
               Inl e \<Rightarrow> (Inl e, w)
             | Inr node \<Rightarrow>
                 if node = ident then
                   (if m_recursionDepth w = 0 then
                      (case extract_node node (heap w) of
                         None \<Rightarrow> (Inl Memory_fault, w)
                       | Some h \<Rightarrow> (Inr True, w\<lparr>heap := delete_node node h\<rparr>))
                    else
                      (case deactivate node (heap w) of
                         None \<Rightarrow> (Inl Memory_fault, w)
                       | Some h \<Rightarrow> (Inr True, w\<lparr>heap := h, m_deactivations := True\<rparr>)))
                 else (Inr False, w)))
      else (Inr False, w))"

text \<open>\<open>signal_base::disconnect(const connection_handler &)\<close>.\<close>

definition disconnect ::
  "nat \<Rightarrow> connection_handler \<Rightarrow> ('f, 'u, 'ev) world \<Rightarrow> (error + bool) \<times> ('f, 'u, 'ev) world" where
  "disconnect n con w =
     (if fst con \<noteq> this w then (Inr False, w) else disconnect_id n (snd con) w)"

text \<open>
  The scan of \<open>signal_base::connected(void*)\<close>:
  \<open>for ( ; node != m_head.get(); node = node->next() ) if ( node == id ) return true;\<close>
\<close>

fun connected_scan :: "nat \<Rightarrow> 'f heap \<Rightarrow> addr \<Rightarrow> addr \<Rightarrow> addr \<Rightarrow> error + bool" where
  "connected_scan 0 h head ident node = Inl Out_of_fuel"
| "connected_scan (Suc n) h head ident node =
     (if node \<noteq> head
      then (if node = ident then Inr True
            else (case load_next h node of
                    None \<Rightarrow> Inl Memory_fault
                  | Some nx \<Rightarrow> connected_scan n h head ident nx))
      else Inr False)"

definition connected_id :: "nat \<Rightarrow> addr \<Rightarrow> ('f, 'u, 'ev) world \<Rightarrow> error + bool" where
  "connected_id n ident w =
     (if m_head w \<noteq> 0 then
        (case load_next (heap w) (m_head w) of
           None \<Rightarrow> Inl Memory_fault
         | Some first \<Rightarrow> connected_scan n (heap w) (m_head w) ident first)
      else Inr False)"

text \<open>\<open>signal_base::connected(const connection_handler &)\<close>.\<close>

definition is_connected :: "nat \<Rightarrow> connection_handler \<Rightarrow> ('f, 'u, 'ev) world \<Rightarrow> error + bool" where
  "is_connected n con w =
     (if fst con \<noteq> this w then Inr False else connected_id n (snd con) w)"


section \<open>Slots and emission\<close>

text \<open>
  A slot is a \<open>std::function<Result(Args...)>\<close>: code of the surrounding program, which
  may call back into the signal while it runs. A slot body is a tree of the calls it
  makes: it returns a value, throws, reads and writes the surrounding program's state
  (\<open>Local\<close>), or calls \<open>connect\<close>, \<open>disconnect\<close>, \<open>connected\<close> or \<open>emit\<close> on the signal and
  goes on with the answer. The last argument of \<open>Emit\<close> is the slot's \<open>catch\<close> handler for
  an exception leaving the nested \<open>emit\<close> (\<open>Throw\<close> when the slot has none). \<open>'a\<close> is the
  argument tuple, \<open>'r\<close> the result type (\<open>unit\<close> for \<open>void\<close>), \<open>'g\<close> the state of an
  aggregation object and \<open>'u\<close> the state of the surrounding program.
\<close>

datatype ('a, 'r, 'g, 'u) prog =
    Ret 'r
  | Throw string
  | Local "'u \<Rightarrow> 'u \<times> ('a, 'r, 'g, 'u) prog"
  | Connect "('a \<Rightarrow> ('a, 'r, 'g, 'u) prog) option" "connection_handler \<Rightarrow> ('a, 'r, 'g, 'u) prog"
  | Disconnect connection_handler "bool \<Rightarrow> ('a, 'r, 'g, 'u) prog"
  | Connected connection_handler "bool \<Rightarrow> ('a, 'r, 'g, 'u) prog"
  | Emit 'a "'r \<Rightarrow> 'g \<Rightarrow> 'g" 'g "'r \<Rightarrow> bool"
      "'g \<Rightarrow> ('a, 'r, 'g, 'u) prog" "string \<Rightarrow> ('a, 'r, 'g, 'u) prog"

type_synonym ('a, 'r, 'g, 'u) slot = "'a \<Rightarrow> ('a, 'r, 'g, 'u) prog"

text \<open>
  The ghost log: \<open>Called d p x\<close> is written when the function of node \<open>p\<close> is called with
  arguments \<open>x\<close>, \<open>Returned d p r\<close> when that call returns \<open>r\<close>, \<open>Raised d p e\<close> when it
  is left by exception \<open>e\<close>, and \<open>Consulted d\<close> when a slot calls \<open>disconnect\<close>; \<open>d\<close> is the
  value of \<open>m_recursionDepth\<close> at that moment.
\<close>

datatype ('a, 'r) event =
    Called nat addr 'a
  | Returned nat addr 'r
  | Raised nat addr string
  | Consulted nat

type_synonym ('a, 'r, 'g, 'u) signal = "(('a, 'r, 'g, 'u) slot, 'u, ('a, 'r) event) world"

definition log :: "'ev \<Rightarrow> ('f, 'u, 'ev) world \<Rightarrow> ('f, 'u, 'ev) world" where
  "log e w = w\<lparr>events := events w @ [e]\<rparr>"

text \<open>\<open>ScopedIncrement\<close>: the constructor and the destructor.\<close>

definition scoped_increment :: "('f, 'u, 'ev) world \<Rightarrow> ('f, 'u, 'ev) world" where
  "scoped_increment w = w\<lparr>m_recursionDepth := m_recursionDepth w + 1\<rparr>"

definition scoped_decrement :: "('f, 'u, 'ev) world \<Rightarrow> ('f, 'u, 'ev) world" where
  "scoped_decrement w = w\<lparr>m_recursionDepth := m_recursionDepth w - 1\<rparr>"

text \<open>
  The sweep at the end of \<open>emit\<close>:
  \<open>while (node != m_head.get()) { next = node->next();
     if (node->function() == nullptr) delete node->extract(); node = next; }\<close>
\<close>

fun sweep_loop :: "nat \<Rightarrow> addr \<Rightarrow> addr \<Rightarrow> 'f heap \<Rightarrow> error + 'f heap" where
  "sweep_loop 0 head node h = Inl Out_of_fuel"
| "sweep_loop (Suc n) head node h =
     (if node \<noteq> head
      then (case h node of
              None \<Rightarrow> Inl Memory_fault
            | Some N \<Rightarrow>
                if m_function N = None
                then (case extract_node node h of
                        None \<Rightarrow> Inl Memory_fault
                      | Some h' \<Rightarrow> sweep_loop n head (m_next N) (delete_node node h'))
                else sweep_loop n head (m_next N) h)
      else Inr h)"

definition sweep :: "nat \<Rightarrow> ('f, 'u, 'ev) world \<Rightarrow> (error + unit) \<times> ('f, 'u, 'ev) world" where
  "sweep n w =
     (case load_next (heap w) (m_head w) of
        None \<Rightarrow> (Inl Memory_fault, w)
      | Some first \<Rightarrow>
          (case sweep_loop n (m_head w) first (heap w) of
             Inl e \<Rightarrow> (Inl e, w)
           | Inr h \<Rightarrow> (Inr (), w\<lparr>heap := h, m_deactivations := False\<rparr>)))"

text \<open>
  \<open>run\<close> executes a slot body; \<open>invoke\<close> is \<open>ConnectionInvoker::invoke\<close> (with the ghost
  log around the call \<open>f(args...)\<close>); \<open>emit_loop\<close> is the \<open>for\<close> loop of \<open>signal::emit\<close>
  over the local variables \<open>node\<close>, \<open>ok\<close> and the aggregation object, and returns the last
  two; \<open>emit\<close> is the body of \<open>signal::emit\<close> up to the final \<open>aggregation.get()\<close>, which the
  caller applies. A slot may re-emit for ever, so everything runs on fuel. When the fuel
  runs out or memory is misused the run stops where it is.
\<close>

function run ::
    "nat \<Rightarrow> ('a, 'r, 'g, 'u) prog \<Rightarrow> ('a, 'r, 'g, 'u) signal \<Rightarrow> (error + 'r) \<times> ('a, 'r, 'g, 'u) signal"
  and invoke ::
    "nat \<Rightarrow> ('a, 'r, 'g, 'u) slot \<Rightarrow> 'a \<Rightarrow> ('r \<Rightarrow> 'g \<Rightarrow> 'g) \<Rightarrow> ('r \<Rightarrow> bool) \<Rightarrow> 'g \<Rightarrow> addr \<Rightarrow>
       ('a, 'r, 'g, 'u) signal \<Rightarrow> (error + bool \<times> 'g) \<times> ('a, 'r, 'g, 'u) signal"
  and emit_loop ::
    "nat \<Rightarrow> 'a \<Rightarrow> ('r \<Rightarrow> 'g \<Rightarrow> 'g) \<Rightarrow> ('r \<Rightarrow> bool) \<Rightarrow> addr \<Rightarrow> bool \<Rightarrow> 'g \<Rightarrow>
       ('a, 'r, 'g, 'u) signal \<Rightarrow> (error + bool \<times> 'g) \<times> ('a, 'r, 'g, 'u) signal"
  and emit ::
    "nat \<Rightarrow> 'a \<Rightarrow> ('r \<Rightarrow> 'g \<Rightarrow> 'g) \<Rightarrow> 'g \<Rightarrow> ('r \<Rightarrow> bool) \<Rightarrow>
       ('a, 'r, 'g, 'u) signal \<Rightarrow> (error + 'g) \<times> ('a, 'r, 'g, 'u) signal"
where
  "run 0 p w = (Inl Out_of_fuel, w)"
| "run (Suc n) p w =
     (case p of
        Ret r \<Rightarrow> (Inr r, w)
      | Throw e \<Rightarrow> (Inl (Slot_error e), w)
      | Local f \<Rightarrow> (case f (user w) of (u, p') \<Rightarrow> run n p' (w\<lparr>user := u\<rparr>))
      | Connect f k \<Rightarrow>
          (case connect f w of
             (Inr con, w') \<Rightarrow> run n (k con) w'
           | (Inl e, w') \<Rightarrow> (Inl e, w'))
      | Disconnect con k \<Rightarrow>
          (case disconnect n con (log (Consulted (m_recursionDepth w)) w) of
             (Inr b, w') \<Rightarrow> run n (k b) w'
           | (Inl e, w') \<Rightarrow> (Inl e, w'))
      | Connected con k \<Rightarrow>
          (case is_connected n con w of
             Inr b \<Rightarrow> run n (k b) w
           | Inl e \<Rightarrow> (Inl e, w))
      | Emit x agg g0 ctl k handler \<Rightarrow>
          (case emit n x agg g0 ctl w of
             (Inr g, w') \<Rightarrow> run n (k g) w'
           | (Inl (Slot_error e), w') \<Rightarrow> run n (handler e) w'
           | (Inl e, w') \<Rightarrow> (Inl e, w')))"
| "invoke 0 f x agg ctl g node w = (Inl Out_of_fuel, w)"
| "invoke (Suc n) f x agg ctl g node w =
     (case run n (f x) (log (Called (m_recursionDepth w) node x) w) of
        (Inr result, w') \<Rightarrow>
          (Inr (ctl result, agg result g), log (Returned (m_recursionDepth w') node result) w')
      | (Inl (Slot_error e), w') \<Rightarrow>
          (Inl (Slot_error e), log (Raised (m_recursionDepth w') node e) w')
      | (Inl e, w') \<Rightarrow> (Inl e, w'))"
| "emit_loop 0 x agg ctl node ok g w = (Inl Out_of_fuel, w)"
| "emit_loop (Suc n) x agg ctl node ok g w =
     (if node \<noteq> m_head w \<and> ok then
        (let w1 = scoped_increment w in
         case load_function (heap w1) node of
           None \<Rightarrow> (Inl Memory_fault, w1)
         | Some fo \<Rightarrow>
             (case (case fo of
                      None \<Rightarrow> (Inr (ok, g), w1)
                    | Some f \<Rightarrow> invoke n f x agg ctl g node w1) of
                (Inr (ok', g'), w2) \<Rightarrow>
                  (case load_next (heap w2) node of
                     None \<Rightarrow> (Inl Memory_fault, w2)
                   | Some nx \<Rightarrow> emit_loop n x agg ctl nx ok' g' (scoped_decrement w2))
              | (Inl (Slot_error e), w2) \<Rightarrow> (Inl (Slot_error e), scoped_decrement w2)
              | (Inl e, w2) \<Rightarrow> (Inl e, w2)))
      else (Inr (ok, g), w))"
| "emit 0 x agg g0 ctl w = (Inl Out_of_fuel, w)"
| "emit (Suc n) x agg g0 ctl w =
     (if m_head w \<noteq> 0 then
        (case load_next (heap w) (m_head w) of
           None \<Rightarrow> (Inl Memory_fault, w)
         | Some first \<Rightarrow>
             (case emit_loop n x agg ctl first True g0 w of
                (Inr (ok, g), w1) \<Rightarrow>
                  if m_recursionDepth w1 = 0 \<and> m_deactivations w1
                  then (case sweep n w1 of
                          (Inr u, w2) \<Rightarrow> (Inr g, w2)
                        | (Inl e, w2) \<Rightarrow> (Inl e, w2))
                  else (Inr g, w1)
              | (Inl e, w1) \<Rightarrow> (Inl e, w1)))
      else (Inr g0, w))"

  by pat_completeness auto
termination
  apply (relation "measure (\<lambda>s. case s of Inl (Inl (n, _)) \<Rightarrow> n | Inl (Inr (n, _)) \<Rightarrow> n | Inr (Inl (n, _)) \<Rightarrow> n | Inr (Inr (n, _)) \<Rightarrow> n)")
  apply simp_all
  done


subsection \<open>Controllers and aggregations\<close>


definition condition_while :: "bool \<Rightarrow> bool \<Rightarrow> bool" where
  "condition_while T result = (result = T)"

text \<open>
  An aggregation object: its state after construction, \<open>aggregate\<close> and \<open>get\<close>.
  \<open>aggregation_last\<close> takes the value-initialised \<open>Result\<close> (\<open>false\<close> for \<open>bool\<close>, \<open>0\<close>
  for the arithmetic types) as a parameter.
\<close>

record ('r, 'g, 'o) aggregation =
  initial :: 'g
  aggregate :: "'r \<Rightarrow> 'g \<Rightarrow> 'g"
  get :: "'g \<Rightarrow> 'o"

definition aggregation_void :: "('r, unit, unit) aggregation" where
  "aggregation_void = \<lparr>initial = (), aggregate = (\<lambda>r g. ()), get = (\<lambda>g. ())\<rparr>"

definition aggregation_last :: "'r \<Rightarrow> ('r, 'r, 'r) aggregation" where
  "aggregation_last v0 = \<lparr>initial = v0, aggregate = (\<lambda>r m_latest. r), get = (\<lambda>m_latest. m_latest)\<rparr>"


definition aggregation_counter :: "('r, nat, nat) aggregation" where
  "aggregation_counter =
     \<lparr>initial = 0, aggregate = (\<lambda>r m_result. Suc m_result), get = (\<lambda>m_result. m_result)\<rparr>"

text \<open>\<open>signal::emit<Aggregation, Controller>(args...)\<close>, with its \<open>return aggregation.get()\<close>.\<close>

definition signal_emit ::
  "nat \<Rightarrow> 'a \<Rightarrow> ('r, 'g, 'o) aggregation \<Rightarrow> ('r \<Rightarrow> bool) \<Rightarrow> ('a, 'r, 'g, 'u) signal \<Rightarrow>
     (error + 'o) \<times> ('a, 'r, 'g, 'u) signal" where
  "signal_emit n x A ctl w =
     (case emit n x (aggregate A) (initial A) ctl w of
        (Inr g, w') \<Rightarrow> (Inr (get A g), w')
      | (Inl e, w') \<Rightarrow> (Inl e, w'))"

text \<open>The constructor \<open>signal()\<close>, for a signal object at address \<open>t\<close>.\<close>

definition new_signal :: "addr \<Rightarrow> 'u \<Rightarrow> ('f, 'u, 'ev) world" where
  "new_signal t u =
     \<lparr>heap = Map.empty, lim = 1, this = t, m_head = 0, m_recursionDepth = 0,
      m_deactivations = False, user = u, events = []\<rparr>"


section \<open>The ring as a list of nodes\<close>

text \<open>
  \<open>path f a xs b\<close>: starting at \<open>a\<close> and following the link \<open>f\<close>, one passes exactly the
  addresses \<open>xs\<close> and arrives at \<open>b\<close>.
\<close>

fun path :: "(addr \<Rightarrow> addr option) \<Rightarrow> addr \<Rightarrow> addr list \<Rightarrow> addr \<Rightarrow> bool" where
  "path f a [] b = (a = b)"
| "path f a (x # xs) b = (a = x \<and> (case f x of None \<Rightarrow> False | Some y \<Rightarrow> path f y xs b))"

text \<open>
  \<open>ring h s xs\<close>: in heap \<open>h\<close> the sentinel \<open>s\<close> and the nodes \<open>xs\<close>, in this order, form one
  cycle along \<open>m_next\<close> and the reverse cycle along \<open>m_prev\<close>; \<open>xs\<close> are the nodes reachable
  from the ring, in the order of the walk of \<open>emit\<close>.
\<close>

definition ring :: "'f heap \<Rightarrow> addr \<Rightarrow> addr list \<Rightarrow> bool" where
  "ring h s xs \<longleftrightarrow>
     path (load_next h) s (s # xs) s \<and> path (load_prev h) s (s # rev xs) s \<and>
     distinct (s # xs) \<and> 0 \<notin> set (s # xs)"

text \<open>The nodes connected to the signal: none before the first \<open>connect\<close>.\<close>

definition nodes :: "('f, 'u, 'ev) world \<Rightarrow> addr list \<Rightarrow> bool" where
  "nodes w xs \<longleftrightarrow> (if m_head w = 0 then xs = [] else ring (heap w) (m_head w) xs)"

text \<open>
  The states a signal can be in: the allocator has handed out only addresses below
  \<open>lim\<close>, a signal without a sentinel has nothing pending, and the sentinel, once
  created, heads a ring.
\<close>

definition well_formed :: "('f, 'u, 'ev) world \<Rightarrow> bool" where
  "well_formed w \<longleftrightarrow>
     0 < lim w \<and> (\<forall>p. lim w \<le> p \<longrightarrow> heap w p = None) \<and> heap w 0 = None \<and>
     (if m_head w = 0 then \<not> m_deactivations w else (\<exists>xs. ring (heap w) (m_head w) xs))"

text \<open>The stored function of a node is present (the node is live and not deactivated).\<close>

definition active :: "'f heap \<Rightarrow> addr \<Rightarrow> bool" where
  "active h p \<longleftrightarrow> (case h p of None \<Rightarrow> False | Some N \<Rightarrow> m_function N \<noteq> None)"


section \<open>Reading the log\<close>

text \<open>
  \<open>nesting d es\<close>: the number of slot calls that are open (entered and not yet left)
  after the events \<open>es\<close>, when \<open>d\<close> were open before them.
\<close>

fun nesting :: "nat \<Rightarrow> ('a, 'r) event list \<Rightarrow> nat" where
  "nesting d [] = d"
| "nesting d (Called c p x # es) = nesting (Suc d) es"
| "nesting d (Returned c p r # es) = nesting (d - 1) es"
| "nesting d (Raised c p e # es) = nesting (d - 1) es"
| "nesting d (Consulted c # es) = nesting d es"

text \<open>
  \<open>accurate d es\<close>: every value of \<open>m_recursionDepth\<close> recorded in \<open>es\<close> is the number of
  slot calls open at that moment, when \<open>d\<close> were open before \<open>es\<close>: a call is entered with
  the counter already counting it, it is left (by return or by exception) with the counter
  still counting it, and a \<open>disconnect\<close> issued by a slot reads exactly that number.
\<close>

fun accurate :: "nat \<Rightarrow> ('a, 'r) event list \<Rightarrow> bool" where
  "accurate d [] = True"
| "accurate d (Called c p x # es) = (c = Suc d \<and> accurate (Suc d) es)"
| "accurate d (Returned c p r # es) = (c = d \<and> 0 < d \<and> accurate (d - 1) es)"
| "accurate d (Raised c p e # es) = (c = d \<and> 0 < d \<and> accurate (d - 1) es)"
| "accurate d (Consulted c # es) = (c = d \<and> accurate d es)"

text \<open>
  \<open>calls d es\<close>: the nodes whose slots were entered with the counter at \<open>d\<close>, in the
  order in which the log \<open>es\<close> records the calls.
\<close>

fun calls :: "nat \<Rightarrow> ('a, 'r) event list \<Rightarrow> addr list" where
  "calls d [] = []"
| "calls d (Called c p x # es) = (if c = d then p # calls d es else calls d es)"
| "calls d (Returned c p r # es) = calls d es"
| "calls d (Raised c p e # es) = calls d es"
| "calls d (Consulted c # es) = calls d es"

text \<open>A run that came to its end: it returned or was left by an exception of a slot.\<close>

fun completed :: "error + 'x \<Rightarrow> bool" where
  "completed (Inr v) = True"
| "completed (Inl (Slot_error e)) = True"
| "completed (Inl Memory_fault) = False"
| "completed (Inl Out_of_fuel) = False"


text \<open>\<open>above d e\<close>: the call that event \<open>e\<close> belongs to was entered with more than \<open>d\<close> calls open.\<close>

fun above :: "nat \<Rightarrow> ('a, 'r) event \<Rightarrow> bool" where
  "above d (Called c p x) = (d < c)"
| "above d (Returned c p r) = (d < c)"
| "above d (Raised c p e) = (d < c)"
| "above d (Consulted c) = True"

text \<open>
  \<open>counted w w' d fin\<close>: from state \<open>w\<close> to state \<open>w'\<close> the log has grown by events that
  are accurate for \<open>d\<close> open calls at the start and belong to calls entered since; when
  \<open>fin\<close> holds, all calls entered in
  between have been left and the counter is back at its value in \<open>w\<close>.
\<close>

definition counted ::
  "('f, 'u, ('a, 'r) event) world \<Rightarrow> ('f, 'u, ('a, 'r) event) world \<Rightarrow> nat \<Rightarrow> bool \<Rightarrow> bool" where
  "counted w w' d fin \<longleftrightarrow>
     (\<exists>es. events w' = events w @ es \<and> accurate d es \<and> list_all (above d) es \<and>
           (fin \<longrightarrow> nesting d es = d \<and> m_recursionDepth w' = m_recursionDepth w))"


text \<open>
  \<open>grown w w' xs\<close>: state \<open>w'\<close> is a well-formed state of the same signal as \<open>w\<close>, whose
  ring held the nodes \<open>xs\<close>; all of them are still linked, in the same order, followed by
  the nodes connected since; a node of \<open>xs\<close> has the slot it had, unless the slot has been
  cleared and the deferred-deactivation flag is set; and the flag, once set, is still set.
\<close>

definition grown ::
  "('f, 'u, 'ev) world \<Rightarrow> ('f, 'u, 'ev) world \<Rightarrow> addr list \<Rightarrow> bool" where
  "grown w w' xs \<longleftrightarrow>
     well_formed w' \<and> m_head w' = m_head w \<and> this w' = this w \<and> lim w \<le> lim w' \<and>
     (\<exists>ys. nodes w' (xs @ ys)) \<and>
     (\<forall>p \<in> set xs. load_function (heap w') p = load_function (heap w) p \<or>
                    load_function (heap w') p = Some None \<and> m_deactivations w') \<and>
     (m_deactivations w \<longrightarrow> m_deactivations w')"


section \<open>Slots that leave the signal alone\<close>

text \<open>
  \<open>yields p u r u'\<close>: the slot body \<open>p\<close>, started in state \<open>u\<close> of the surrounding
  program, returns \<open>r\<close> and leaves that state as \<open>u'\<close>, without calling back into the
  signal and without throwing.
\<close>

inductive yields :: "('a, 'r, 'g, 'u) prog \<Rightarrow> 'u \<Rightarrow> 'r \<Rightarrow> 'u \<Rightarrow> bool" where
  yields_Ret: "yields (Ret r) u r u"
| yields_Local: "f u = (u1, p) \<Longrightarrow> yields p u1 r u' \<Longrightarrow> yields (Local f) u r u'"



section \<open>Example signals\<close>

text \<open>
  A \<open>signal<bool()>\<close> at address 7 with three slots connected in this order: one that
  returns \<open>true\<close>, one that returns \<open>false\<close>, and one that never returns normally.
\<close>

definition three_slots :: "(unit, bool, bool, unit) signal" where
  "three_slots =
     snd (connect (Some (\<lambda>_. Throw ''abort''))
       (snd (connect (Some (\<lambda>_. Ret False))
         (snd (connect (Some (\<lambda>_. Ret True)) (new_signal 7 ()))))))"

text \<open>
  A \<open>signal<bool(unsigned)>\<close> at address 7 with three slots. Called with 0, the first
  re-emits the signal with 1; called with anything else, it disconnects the second slot
  (node 3). The second returns \<open>true\<close>. The third, called with 0, connects a new slot.
\<close>

definition reentrant_signal :: "(nat, bool, bool, unit) signal" where
  "reentrant_signal =
     snd (connect (Some (\<lambda>a. if a = 0 then Connect (Some (\<lambda>_. Ret True)) (\<lambda>con. Ret True)
                                else Ret True))
       (snd (connect (Some (\<lambda>_. Ret True))
         (snd (connect (Some (\<lambda>a. if a = 0
                                    then Emit 1 (\<lambda>r g. r) False (\<lambda>r. True) (\<lambda>g. Ret True) Throw
                                    else Disconnect (7, 3) (\<lambda>b. Ret b)))
                (new_signal 7 ()))))))"

text \<open>
  A \<open>signal<bool()>\<close> at address 7 with three slots: the first disconnects the second
  (node 3), the second returns \<open>true\<close>, the third throws.
\<close>

definition raising_signal :: "(unit, bool, bool, unit) signal" where
  "raising_signal =
     snd (connect (Some (\<lambda>_. Throw ''failed''))
       (snd (connect (Some (\<lambda>_. Ret True))
         (snd (connect (Some (\<lambda>_. Disconnect (7, 3) (\<lambda>b. Ret b))) (new_signal 7 ()))))))"



section \<open>Lemmas about paths, heap operations and rings\<close>

subsection \<open>Paths\<close>

lemma path_append:
  "path f a (xs @ ys) c \<longleftrightarrow> (\<exists>b. path f a xs b \<and> path f b ys c)"
  by (induction xs arbitrary: a) (auto split: option.splits)

lemma path_snoc:
  "path f a (xs @ [x]) b \<longleftrightarrow> path f a xs x \<and> f x = Some b"
  by (auto simp: path_append split: option.splits)

lemma path_upd:
  "x \<notin> set xs \<Longrightarrow> path (f(x := v)) a xs b = path f a xs b"
  by (induction xs arbitrary: a) (auto split: option.splits)

lemma path_cong_on:
  "(\<And>x. x \<in> set xs \<Longrightarrow> f x = g x) \<Longrightarrow> path f a xs b = path g a xs b"
  by (induction xs arbitrary: a) (auto split: option.splits)

lemma path_start: "path f a xs b \<Longrightarrow> a = hd (xs @ [b])"
  by (cases xs) auto

lemma path_unique:
  "path f a xs b \<Longrightarrow> path f a ys b \<Longrightarrow> b \<notin> set xs \<Longrightarrow> b \<notin> set ys \<Longrightarrow> xs = ys"
proof (induction xs arbitrary: a ys)
  case Nil
  then show ?case by (cases ys) auto
next
  case (Cons x xs)
  then show ?case by (cases ys) (auto split: option.splits)
qed

lemma path_link_back:
  assumes "path f s (s # xs) s" and "distinct (s # xs)" and "n \<notin> set (s # xs)"
  shows "path (f(n \<mapsto> s, last (s # xs) \<mapsto> n)) s (s # xs @ [n]) s"
proof -
  define b where "b = last (s # xs)"
  obtain cs where cs: "s # xs = cs @ [b]"
    unfolding b_def by (metis append_butlast_last_id list.distinct(1))
  have dist: "distinct (cs @ [b])" and nn: "n \<notin> set (cs @ [b])"
    using assms(2,3) cs by metis+
  from assms(1) cs have "path f s (cs @ [b]) s" by metis
  then have p: "path f s cs b" by (simp add: path_snoc)
  have "path (f(n \<mapsto> s, b \<mapsto> n)) s cs b"
    using p dist nn by (simp add: path_upd)
  then have "path (f(n \<mapsto> s, b \<mapsto> n)) s ((cs @ [b]) @ [n]) s"
    using nn by (auto simp: path_append)
  then have "path (f(n \<mapsto> s, b \<mapsto> n)) s ((s # xs) @ [n]) s"
    using cs by metis
  then show ?thesis unfolding b_def by (metis append_Cons)
qed

lemma path_link_front:
  assumes "path f s (s # xs) s" and "distinct (s # xs)" and "n \<notin> set (s # xs)"
    and "f s = Some b"
  shows "path (f(n \<mapsto> b, s \<mapsto> n)) s (s # n # xs) s"
proof -
  from assms(1,4) have "path f b xs s" by simp
  then have "path (f(n \<mapsto> b, s \<mapsto> n)) b xs s"
    using assms(2,3) by (simp add: path_upd)
  then show ?thesis using assms(3) by simp
qed

lemma path_unlink:
  assumes "path f s (s # as @ x # bs) s" and "distinct (s # as @ x # bs)" and "f x = Some nx"
  shows "path (f(last (s # as) \<mapsto> nx, x := None)) s (s # as @ bs) s"
proof -
  define b where "b = last (s # as)"
  obtain cs where cs: "s # as = cs @ [b]"
    unfolding b_def by (metis append_butlast_last_id list.distinct(1))
  let ?f = "f(b \<mapsto> nx, x := None)"
  have eq: "s # as @ x # bs = cs @ [b] @ x # bs" using cs by (metis append_Cons append_assoc)
  have dist: "distinct (cs @ [b] @ x # bs)" using assms(2) eq by metis
  from assms(1) eq have "path f s (cs @ [b] @ x # bs) s" by metis
  then have p1: "path f s cs b" and p2: "f b = Some x" and p3: "path f nx bs s"
    using assms(3) by (auto simp: path_append split: option.splits)
  have "path ?f s cs b" using p1 dist by (simp add: path_upd)
  moreover have "?f b = Some nx" using dist by simp
  moreover have "path ?f nx bs s" using p3 dist by (simp add: path_upd)
  ultimately have "path ?f s (cs @ [b] @ bs) s"
    by (auto simp: path_append)
  moreover have "s # as @ bs = cs @ [b] @ bs" using cs by (metis append_Cons append_assoc)
  ultimately show ?thesis unfolding b_def by metis
qed


subsection \<open>Heap operations, seen through the three fields\<close>

lemma load_None_iff:
  "load_next h p = None \<longleftrightarrow> h p = None"
  "load_prev h p = None \<longleftrightarrow> h p = None"
  "load_function h p = None \<longleftrightarrow> h p = None"
  by (simp_all add: load_next_def load_prev_def load_function_def)

lemma store_next_ok:
  assumes "h p \<noteq> None"
  obtains h' where "store_next p v h = Some h'"
    and "load_next h' = (load_next h)(p \<mapsto> v)"
    and "load_prev h' = load_prev h"
    and "load_function h' = load_function h"
proof -
  from assms obtain N where N: "h p = Some N" by auto
  show thesis
  proof (rule that [of "h(p \<mapsto> N\<lparr>m_next := v\<rparr>)"])
    show "store_next p v h = Some (h(p \<mapsto> N\<lparr>m_next := v\<rparr>))" by (simp add: store_next_def N)
  qed (auto simp: load_next_def load_prev_def load_function_def N fun_eq_iff)
qed

lemma store_prev_ok:
  assumes "h p \<noteq> None"
  obtains h' where "store_prev p v h = Some h'"
    and "load_next h' = load_next h"
    and "load_prev h' = (load_prev h)(p \<mapsto> v)"
    and "load_function h' = load_function h"
proof -
  from assms obtain N where N: "h p = Some N" by auto
  show thesis
  proof (rule that [of "h(p \<mapsto> N\<lparr>m_prev := v\<rparr>)"])
    show "store_prev p v h = Some (h(p \<mapsto> N\<lparr>m_prev := v\<rparr>))" by (simp add: store_prev_def N)
  qed (auto simp: load_next_def load_prev_def load_function_def N fun_eq_iff)
qed

lemma deactivate_ok:
  assumes "h p \<noteq> None"
  obtains h' where "deactivate p h = Some h'"
    and "load_next h' = load_next h"
    and "load_prev h' = load_prev h"
    and "load_function h' = (load_function h)(p \<mapsto> None)"
proof -
  from assms obtain N where N: "h p = Some N" by auto
  show thesis
  proof (rule that [of "h(p \<mapsto> N\<lparr>m_function := None\<rparr>)"])
    show "deactivate p h = Some (h(p \<mapsto> N\<lparr>m_function := None\<rparr>))" by (simp add: deactivate_def N)
  qed (auto simp: load_next_def load_prev_def load_function_def N fun_eq_iff)
qed

lemma delete_node_loads:
  "load_next (delete_node p h) = (load_next h)(p := None)"
  "load_prev (delete_node p h) = (load_prev h)(p := None)"
  "load_function (delete_node p h) = (load_function h)(p := None)"
  by (auto simp: load_next_def load_prev_def load_function_def delete_node_def fun_eq_iff)

lemma same_function_same_dom:
  "load_function h' = load_function h \<Longrightarrow> (h' p = None) = (h p = None)"
  by (metis load_None_iff(3))

subsection \<open>Rings\<close>

lemma ring_allocated: "ring h s xs \<Longrightarrow> p \<in> set (s # xs) \<Longrightarrow> h p \<noteq> None"
proof -
  assume r: "ring h s xs" and p: "p \<in> set (s # xs)"
  have "path f a ys b \<Longrightarrow> q \<in> set ys \<Longrightarrow> f q \<noteq> None" for f a ys b q
    by (induction ys arbitrary: a) (auto split: option.splits)
  with r p have "load_next h p \<noteq> None" unfolding ring_def by blast
  then show ?thesis by (simp add: load_None_iff)
qed

lemma ring_unique: "ring h s xs \<Longrightarrow> ring h s ys \<Longrightarrow> xs = ys"
  unfolding ring_def by (auto split: option.splits dest: path_unique)

lemma ring_prev_sentinel: "ring h s xs \<Longrightarrow> load_prev h s = Some (last (s # xs))"
proof -
  assume "ring h s xs"
  then obtain y where y: "load_prev h s = Some y" and p: "path (load_prev h) y (rev xs) s"
    unfolding ring_def by (auto split: option.splits)
  from path_start [OF p] have "y = hd (rev xs @ [s])" .
  also have "\<dots> = last (s # xs)" by (cases xs rule: rev_cases) auto
  finally show ?thesis using y by simp
qed

lemma ring_next_sentinel: "ring h s xs \<Longrightarrow> load_next h s = Some (hd (xs @ [s]))"
proof -
  assume "ring h s xs"
  then obtain y where y: "load_next h s = Some y" and p: "path (load_next h) y xs s"
    unfolding ring_def by (auto split: option.splits)
  from path_start [OF p] show ?thesis using y by simp
qed

lemma ring_next_path: "ring h s xs \<Longrightarrow> path (load_next h) (hd (xs @ [s])) xs s"
  unfolding ring_def by (auto split: option.splits dest: path_start)

lemma ring_next_last: "ring h s xs \<Longrightarrow> load_next h (last (s # xs)) = Some s"
proof -
  assume r: "ring h s xs"
  define b where "b = last (s # xs)"
  obtain cs where cs: "s # xs = cs @ [b]"
    unfolding b_def by (metis append_butlast_last_id list.distinct(1))
  from r have "path (load_next h) s (s # xs) s" by (simp add: ring_def)
  then have "path (load_next h) s (cs @ [b]) s" using cs by metis
  then show ?thesis unfolding b_def [symmetric] by (simp add: path_snoc)
qed

lemma ring_next_mid:
  "ring h s (as @ x # bs) \<Longrightarrow> load_next h x = Some (hd (bs @ [s]))"
proof -
  assume "ring h s (as @ x # bs)"
  then have "path (load_next h) s ((s # as) @ x # bs) s" by (simp add: ring_def)
  then obtain y where "load_next h x = Some y" "path (load_next h) y bs s"
    unfolding path_append by (auto split: option.splits)
  then show ?thesis by (auto dest: path_start)
qed

lemma ring_prev_mid:
  "ring h s (as @ x # bs) \<Longrightarrow> load_prev h x = Some (last (s # as))"
proof -
  assume "ring h s (as @ x # bs)"
  then have "path (load_prev h) s ((s # rev bs) @ x # rev as) s" by (simp add: ring_def)
  then obtain y where y: "load_prev h x = Some y" and p: "path (load_prev h) y (rev as) s"
    unfolding path_append by (auto split: option.splits)
  from path_start [OF p] have "y = hd (rev as @ [s])" .
  also have "\<dots> = last (s # as)" by (cases as rule: rev_cases) auto
  finally show ?thesis using y by simp
qed

lemma ring_cong:
  assumes "ring h s xs" and "load_next h' = load_next h" and "load_prev h' = load_prev h"
  shows "ring h' s xs"
  using assms by (simp add: ring_def)


lemma ring_insert:
  assumes r: "ring h s xs" and n: "h n \<noteq> None" "n \<notin> set (s # xs)" "n \<noteq> 0"
  obtains h' where "insert_node s n h = Some h'"
    and "ring h' s (xs @ [n])"
    and "load_function h' = load_function h"
proof -
  define b where "b = last (s # xs)"
  have b_in: "b \<in> set (s # xs)" unfolding b_def by (rule last_in_set) simp
  have prev_s: "load_prev h s = Some b" unfolding b_def by (rule ring_prev_sentinel [OF r])
  have hs: "h s \<noteq> None" and hb: "h b \<noteq> None"
    using ring_allocated [OF r] b_in by auto
  have ns: "n \<noteq> s" and nb: "n \<noteq> b" using n(2) b_in by auto
  from store_prev_ok [where h=h and p=n and v=b] n(1) obtain h1 where h1: "store_prev n b h = Some h1"
    "load_next h1 = load_next h" "load_prev h1 = (load_prev h)(n \<mapsto> b)"
    "load_function h1 = load_function h" by blast
  have "h1 n \<noteq> None" using n(1) same_function_same_dom [OF h1(4)] by simp
  from store_next_ok [where h=h1 and p=n and v=s] this obtain h2 where h2: "store_next n s h1 = Some h2"
    "load_next h2 = (load_next h1)(n \<mapsto> s)" "load_prev h2 = load_prev h1"
    "load_function h2 = load_function h1" by blast
  have prev_s2: "load_prev h2 s = Some b" using h2(3) h1(3) prev_s ns by simp
  have "h2 b \<noteq> None" using hb same_function_same_dom [OF h1(4)] same_function_same_dom [OF h2(4)] by simp
  from store_next_ok [where h=h2 and p=b and v=n] this obtain h3 where h3: "store_next b n h2 = Some h3"
    "load_next h3 = (load_next h2)(b \<mapsto> n)" "load_prev h3 = load_prev h2"
    "load_function h3 = load_function h2" by blast
  have "h3 s \<noteq> None" using hs same_function_same_dom [OF h1(4)] same_function_same_dom [OF h2(4)]
      same_function_same_dom [OF h3(4)] by simp
  from store_prev_ok [where h=h3 and p=s and v=n] this obtain h4 where h4: "store_prev s n h3 = Some h4"
    "load_next h4 = load_next h3" "load_prev h4 = (load_prev h3)(s \<mapsto> n)"
    "load_function h4 = load_function h3" by blast
  have ins: "insert_node s n h = Some h4"
    using n(3) prev_s h1(1) h2(1) prev_s2 h3(1) h4(1) by (simp add: insert_node_def)
  have nxt: "load_next h4 = (load_next h)(n \<mapsto> s, b \<mapsto> n)"
    by (simp add: h4 h3 h2 h1)
  have prv: "load_prev h4 = (load_prev h)(n \<mapsto> b, s \<mapsto> n)"
    by (simp add: h4 h3 h2 h1)
  from r have pn: "path (load_next h) s (s # xs) s" and pp: "path (load_prev h) s (s # rev xs) s"
    and d: "distinct (s # xs)" and z: "0 \<notin> set (s # xs)" by (simp_all add: ring_def)
  have 1: "path (load_next h4) s (s # xs @ [n]) s"
    unfolding nxt b_def by (rule path_link_back [OF pn d n(2)])
  have "path ((load_prev h)(n \<mapsto> b, s \<mapsto> n)) s (s # n # rev xs) s"
    by (rule path_link_front [OF pp _ _ prev_s]) (use d n(2) in auto)
  then have 2: "path (load_prev h4) s (s # rev (xs @ [n])) s" by (simp add: prv)
  have "ring h4 s (xs @ [n])"
    unfolding ring_def using 1 2 d z n(2,3) by auto
  moreover have "load_function h4 = load_function h" by (simp add: h4 h3 h2 h1)
  ultimately show thesis using ins that by blast
qed

lemma ring_extract:
  assumes r: "ring h s (as @ x # bs)"
  obtains h' where "extract_node x h = Some h'"
    and "ring (delete_node x h') s (as @ bs)"
    and "load_function (delete_node x h') = (load_function h)(x := None)"
proof -
  define nx where "nx = hd (bs @ [s])"
  define px where "px = last (s # as)"
  from r have pn: "path (load_next h) s (s # as @ x # bs) s"
    and pp: "path (load_prev h) s (s # rev bs @ x # rev as) s"
    and d: "distinct (s # as @ x # bs)" and z: "0 \<notin> set (s # as @ x # bs)"
    by (simp_all add: ring_def)
  have nx_in: "nx \<in> set (s # bs)" unfolding nx_def by (cases bs) auto
  have px_in: "px \<in> set (s # as)" unfolding px_def by (rule last_in_set) simp
  have xn: "x \<noteq> nx" and xp: "x \<noteq> px" using d nx_in px_in by auto
  have next_x: "load_next h x = Some nx" unfolding nx_def by (rule ring_next_mid [OF r])
  have prev_x: "load_prev h x = Some px" unfolding px_def by (rule ring_prev_mid [OF r])
  have alloc: "h nx \<noteq> None" "h px \<noteq> None" "h x \<noteq> None"
    using ring_allocated [OF r] nx_in px_in by auto
  from store_prev_ok [where h=h and p=nx and v=px] alloc(1) obtain h1 where h1: "store_prev nx px h = Some h1"
    "load_next h1 = load_next h" "load_prev h1 = (load_prev h)(nx \<mapsto> px)"
    "load_function h1 = load_function h" by blast
  have prev_x1: "load_prev h1 x = Some px" and next_x1: "load_next h1 x = Some nx"
    using h1 prev_x next_x xn by auto
  have "h1 px \<noteq> None" using alloc(2) same_function_same_dom [OF h1(4)] by simp
  from store_next_ok [where h=h1 and p=px and v=nx] this obtain h2 where h2: "store_next px nx h1 = Some h2"
    "load_next h2 = (load_next h1)(px \<mapsto> nx)" "load_prev h2 = load_prev h1"
    "load_function h2 = load_function h1" by blast
  have "h2 x \<noteq> None" using alloc(3) same_function_same_dom [OF h1(4)] same_function_same_dom [OF h2(4)] by simp
  from store_next_ok [where h=h2 and p=x and v=0] this obtain h3 where h3: "store_next x 0 h2 = Some h3"
    "load_next h3 = (load_next h2)(x \<mapsto> 0)" "load_prev h3 = load_prev h2"
    "load_function h3 = load_function h2" by blast
  have "h3 x \<noteq> None" using alloc(3) same_function_same_dom [OF h1(4)] same_function_same_dom [OF h2(4)]
      same_function_same_dom [OF h3(4)] by simp
  from store_prev_ok [where h=h3 and p=x and v=0] this obtain h4 where h4: "store_prev x 0 h3 = Some h4"
    "load_next h4 = load_next h3" "load_prev h4 = (load_prev h3)(x \<mapsto> 0)"
    "load_function h4 = load_function h3" by blast
  have ext: "extract_node x h = Some h4"
    using next_x prev_x h1(1) prev_x1 next_x1 h2(1) h3(1) h4(1) by (simp add: extract_node_def)
  have nxt: "load_next (delete_node x h4) = (load_next h)(px \<mapsto> nx, x := None)"
    by (simp add: delete_node_loads h4 h3 h2 h1)
  have prv: "load_prev (delete_node x h4) = (load_prev h)(nx \<mapsto> px, x := None)"
    by (simp add: delete_node_loads h4 h3 h2 h1)
  have fn: "load_function (delete_node x h4) = (load_function h)(x := None)"
    by (simp add: delete_node_loads h4 h3 h2 h1)
  have 1: "path (load_next (delete_node x h4)) s (s # as @ bs) s"
    unfolding nxt px_def by (rule path_unlink [OF pn d next_x])
  have d': "distinct (s # rev bs @ x # rev as)" using d by auto
  have l: "last (s # rev bs) = nx" unfolding nx_def by (cases bs) auto
  have "path ((load_prev h)(last (s # rev bs) \<mapsto> px, x := None)) s (s # rev bs @ rev as) s"
    by (rule path_unlink [OF pp d' prev_x])
  then have "path ((load_prev h)(nx \<mapsto> px, x := None)) s (s # rev bs @ rev as) s"
    unfolding l .
  then have 2: "path (load_prev (delete_node x h4)) s (s # rev (as @ bs)) s" by (simp add: prv)
  have "ring (delete_node x h4) s (as @ bs)"
    unfolding ring_def using 1 2 d z by auto
  then show thesis using ext fn that by blast
qed

lemma ring_deactivate:
  assumes r: "ring h s xs" and p: "p \<in> set (s # xs)"
  obtains h' where "deactivate p h = Some h'"
    and "ring h' s xs"
    and "load_next h' = load_next h" and "load_prev h' = load_prev h"
    and "load_function h' = (load_function h)(p \<mapsto> None)"
proof -
  from deactivate_ok [where h=h and p=p] ring_allocated [OF r p] obtain h' where h': "deactivate p h = Some h'"
    "load_next h' = load_next h" "load_prev h' = load_prev h"
    "load_function h' = (load_function h)(p \<mapsto> None)" by blast
  from ring_cong [OF r h'(2,3)] h' that show thesis by blast
qed

subsection \<open>The scans over a ring\<close>

lemma disconnect_scan_path:
  "path (load_next h) a xs s \<Longrightarrow> s \<notin> set xs \<Longrightarrow> length xs < n \<Longrightarrow>
   disconnect_scan n h s ident a = Inr (if ident \<in> set xs then ident else s)"
proof (induction xs arbitrary: a n)
  case Nil
  then show ?case by (cases n) auto
next
  case (Cons x xs)
  then obtain m where m: "n = Suc m" by (cases n) auto
  from Cons.prems obtain y where y: "load_next h x = Some y" "path (load_next h) y xs s" "a = x"
    by (auto split: option.splits)
  from Cons.IH [OF y(2), of m] Cons.prems m
  have "disconnect_scan m h s ident y = Inr (if ident \<in> set xs then ident else s)" by auto
  then show ?case using y m Cons.prems(2) by auto
qed

lemma connected_scan_path:
  "path (load_next h) a xs s \<Longrightarrow> s \<notin> set xs \<Longrightarrow> length xs < n \<Longrightarrow>
   connected_scan n h s ident a = Inr (ident \<in> set xs)"
proof (induction xs arbitrary: a n)
  case Nil
  then show ?case by (cases n) auto
next
  case (Cons x xs)
  then obtain m where m: "n = Suc m" by (cases n) auto
  from Cons.prems obtain y where y: "load_next h x = Some y" "path (load_next h) y xs s" "a = x"
    by (auto split: option.splits)
  from Cons.IH [OF y(2), of m] Cons.prems m
  have "connected_scan m h s ident y = Inr (ident \<in> set xs)" by auto
  then show ?case using y m Cons.prems(2) by auto
qed

lemma active_load: "active h p \<longleftrightarrow> (\<exists>f. load_function h p = Some (Some f))"
  by (auto simp: active_def load_function_def split: option.splits)

lemma sweep_loop_ring:
  "ring h s (as @ bs) \<Longrightarrow> length bs < n \<Longrightarrow>
   \<exists>h'. sweep_loop n s (hd (bs @ [s])) h = Inr h' \<and>
        ring h' s (as @ filter (active h) bs) \<and>
        load_function h' = (\<lambda>p. if p \<in> set bs \<and> \<not> active h p then None else load_function h p)"
proof (induction bs arbitrary: as h n)
  case Nil
  then show ?case by (cases n) auto
next
  case (Cons b bs)
  then obtain m where m: "n = Suc m" by (cases n) auto
  from Cons.prems(1) have d: "distinct (s # as @ b # bs)" by (simp add: ring_def)
  then have bs: "b \<noteq> s" "b \<notin> set bs" by auto
  from ring_allocated [OF Cons.prems(1), of b] obtain N where N: "h b = Some N" by auto
  have nx: "m_next N = hd (bs @ [s])"
    using ring_next_mid [OF Cons.prems(1)] N by (simp add: load_next_def)
  show ?case
  proof (cases "m_function N = None")
    case True
    then have na: "\<not> active h b" by (simp add: active_def N)
    from ring_extract [OF Cons.prems(1)] obtain h1 where h1: "extract_node b h = Some h1"
      "ring (delete_node b h1) s (as @ bs)"
      "load_function (delete_node b h1) = (load_function h)(b := None)" by blast
    from Cons.IH [OF h1(2), of m] Cons.prems(2) m obtain h' where
      h': "sweep_loop m s (hd (bs @ [s])) (delete_node b h1) = Inr h'"
      "ring h' s (as @ filter (active (delete_node b h1)) bs)"
      "load_function h' = (\<lambda>p. if p \<in> set bs \<and> \<not> active (delete_node b h1) p then None
                              else load_function (delete_node b h1) p)" by auto
    have act: "active (delete_node b h1) p = active h p" if "p \<in> set bs" for p
      using that bs(2) h1(3) by (auto simp: active_load)
    then have f: "filter (active (delete_node b h1)) bs = filter (active h) bs"
      by (auto intro: filter_cong)
    have "sweep_loop n s (hd ((b # bs) @ [s])) h = Inr h'"
      using m bs N True nx h1(1) h'(1) by simp
    moreover have "ring h' s (as @ filter (active h) (b # bs))"
      using h'(2) f na by simp
    moreover have "load_function h' =
        (\<lambda>p. if p \<in> set (b # bs) \<and> \<not> active h p then None else load_function h p)"
      unfolding h'(3) using act na h1(3) by (auto simp: fun_eq_iff)
    ultimately show ?thesis by blast
  next
    case False
    then have a: "active h b" by (simp add: active_def N)
    from Cons.prems(1) have r: "ring h s ((as @ [b]) @ bs)" by simp
    from Cons.IH [OF r, of m] Cons.prems(2) m obtain h' where
      h': "sweep_loop m s (hd (bs @ [s])) h = Inr h'"
      "ring h' s ((as @ [b]) @ filter (active h) bs)"
      "load_function h' = (\<lambda>p. if p \<in> set bs \<and> \<not> active h p then None else load_function h p)"
      by auto
    have "sweep_loop n s (hd ((b # bs) @ [s])) h = Inr h'"
      using m bs N False nx h'(1) by auto
    moreover have "ring h' s (as @ filter (active h) (b # bs))"
      using h'(2) a by simp
    moreover have "load_function h' =
        (\<lambda>p. if p \<in> set (b # bs) \<and> \<not> active h p then None else load_function h p)"
      unfolding h'(3) using a by (auto simp: fun_eq_iff)
    ultimately show ?thesis by blast
  qed
qed

subsection \<open>The operations of the signal on well-formed states\<close>

lemma nodes_unique: "nodes w xs \<Longrightarrow> nodes w ys \<Longrightarrow> xs = ys"
  by (auto simp: nodes_def dest: ring_unique split: if_splits)

lemma wf_nodes: "well_formed w \<Longrightarrow> \<exists>xs. nodes w xs"
  by (auto simp: well_formed_def nodes_def split: if_splits)

lemma nodes_ring: "m_head w \<noteq> 0 \<Longrightarrow> nodes w xs = ring (heap w) (m_head w) xs"
  by (simp add: nodes_def)

lemma loads_upd:
  "load_next (h(q \<mapsto> N)) = (load_next h)(q \<mapsto> m_next N)"
  "load_prev (h(q \<mapsto> N)) = (load_prev h)(q \<mapsto> m_prev N)"
  "load_function (h(q \<mapsto> N)) = (load_function h)(q \<mapsto> m_function N)"
  by (auto simp: load_next_def load_prev_def load_function_def)

lemma ring_alloc:
  assumes "ring h s xs" and "h q = None"
  shows "ring (h(q \<mapsto> N)) s xs"
proof -
  have 1: "q \<notin> set (s # xs)" using ring_allocated [OF assms(1)] assms(2) by blast
  then have 2: "q \<notin> set (s # rev xs)" by simp
  have "path ((load_next h)(q \<mapsto> m_next N)) s (s # xs) s = path (load_next h) s (s # xs) s"
    by (rule path_upd [OF 1])
  moreover
  have "path ((load_prev h)(q \<mapsto> m_prev N)) s (s # rev xs) s = path (load_prev h) s (s # rev xs) s"
    by (rule path_upd [OF 2])
  ultimately show ?thesis
    using assms(1) unfolding ring_def loads_upd by blast
qed

lemma ring_singleton:
  "s \<noteq> 0 \<Longrightarrow> ring (h(s \<mapsto> \<lparr>m_next = s, m_prev = s, m_function = f\<rparr>)) s []"
  by (simp add: ring_def loads_upd)

lemma connect_wf:
  assumes w: "well_formed w" and xs: "nodes w xs"
  obtains q H where
    "connect f w = (Inr (this w, q),
        w\<lparr>heap := H, lim := Suc q, m_head := (if m_head w = 0 then lim w else m_head w)\<rparr>)"
    and "ring H (if m_head w = 0 then lim w else m_head w) (xs @ [q])"
    and "lim w \<le> q" and "q \<noteq> 0"
    and "load_function H q = Some f"
    and "\<And>p. p < lim w \<Longrightarrow> load_function H p = load_function (heap w) p"
    and "\<And>p. Suc q \<le> p \<Longrightarrow> H p = None"
proof (cases "m_head w = 0")
  case True
  define s where "s = lim w"
  define q where "q = Suc (lim w)"
  define h1 where "h1 = (heap w)(s \<mapsto> \<lparr>m_next = s, m_prev = s, m_function = None\<rparr>)"
  define h2 where "h2 = h1(q \<mapsto> \<lparr>m_next = q, m_prev = q, m_function = f\<rparr>)"
  from w have s0: "s \<noteq> 0" and free: "\<And>p. lim w \<le> p \<Longrightarrow> heap w p = None"
    by (auto simp: well_formed_def s_def)
  from xs True have xs_nil: "xs = []" by (simp add: nodes_def)
  have "ring h1 s []" unfolding h1_def by (rule ring_singleton [OF s0])
  moreover have "h1 q = None" using free by (simp add: h1_def q_def s_def)
  ultimately have r2: "ring h2 s []" unfolding h2_def by (rule ring_alloc)
  have "h2 q \<noteq> None" "q \<notin> set (s # [])" "q \<noteq> 0" by (simp_all add: h2_def q_def s_def)
  from ring_insert [OF r2 this] obtain H where H: "insert_node s q h2 = Some H"
    "ring H s ([] @ [q])" "load_function H = load_function h2" by blast
  have c: "connect f w = (Inr (this w, q), w\<lparr>heap := H, lim := Suc q, m_head := s\<rparr>)"
    using True H(1) by (simp add: connect_def new_node_def Let_def s_def q_def h1_def h2_def)
  show thesis
  proof (rule that [of q H])
    show "connect f w = (Inr (this w, q),
        w\<lparr>heap := H, lim := Suc q, m_head := (if m_head w = 0 then lim w else m_head w)\<rparr>)"
      using c True by (simp add: s_def)
    show "ring H (if m_head w = 0 then lim w else m_head w) (xs @ [q])"
      using H(2) True xs_nil by (simp add: s_def)
    show "lim w \<le> q" "q \<noteq> 0" by (simp_all add: q_def)
    show "load_function H q = Some f" by (simp add: H(3) h2_def loads_upd)
    show "load_function H p = load_function (heap w) p" if "p < lim w" for p
      using that by (simp add: H(3) h2_def h1_def loads_upd q_def s_def)
    show "H p = None" if "Suc q \<le> p" for p
    proof -
      have "load_function H p = None"
        using that free [of p] by (simp add: H(3) h2_def h1_def loads_upd q_def s_def load_None_iff)
      then show ?thesis by (simp add: load_None_iff)
    qed
  qed
next
  case False
  define s where "s = m_head w"
  define q where "q = lim w"
  define h2 where "h2 = (heap w)(q \<mapsto> \<lparr>m_next = q, m_prev = q, m_function = f\<rparr>)"
  from w have q0: "q \<noteq> 0" and free: "\<And>p. lim w \<le> p \<Longrightarrow> heap w p = None"
    by (auto simp: well_formed_def q_def)
  from xs False have r: "ring (heap w) s xs" by (simp add: nodes_def s_def)
  have hq: "heap w q = None" using free by (simp add: q_def)
  have r2: "ring h2 s xs" unfolding h2_def by (rule ring_alloc [OF r hq])
  have "q \<notin> set (s # xs)" using ring_allocated [OF r] hq by blast
  with q0 have "h2 q \<noteq> None" "q \<notin> set (s # xs)" "q \<noteq> 0" by (simp_all add: h2_def)
  from ring_insert [OF r2 this] obtain H where H: "insert_node s q h2 = Some H"
    "ring H s (xs @ [q])" "load_function H = load_function h2" by blast
  have c: "connect f w = (Inr (this w, q), w\<lparr>heap := H, lim := Suc q\<rparr>)"
    using False H(1) by (simp add: connect_def new_node_def Let_def s_def q_def h2_def)
  show thesis
  proof (rule that [of q H])
    show "connect f w = (Inr (this w, q),
        w\<lparr>heap := H, lim := Suc q, m_head := (if m_head w = 0 then lim w else m_head w)\<rparr>)"
      using c False by simp
    show "ring H (if m_head w = 0 then lim w else m_head w) (xs @ [q])"
      using H(2) False by (simp add: s_def)
    show "lim w \<le> q" "q \<noteq> 0" using q0 by (simp_all add: q_def)
    show "load_function H q = Some f" by (simp add: H(3) h2_def loads_upd)
    show "load_function H p = load_function (heap w) p" if "p < lim w" for p
      using that by (simp add: H(3) h2_def loads_upd q_def)
    show "H p = None" if "Suc q \<le> p" for p
    proof -
      have "load_function H p = None"
        using that free [of p] by (simp add: H(3) h2_def loads_upd q_def load_None_iff)
      then show ?thesis by (simp add: load_None_iff)
    qed
  qed
qed


lemma scan_from_head:
  assumes "ring h s xs" and "length xs < n"
  shows "\<exists>first. load_next h s = Some first \<and>
           disconnect_scan n h s ident first = Inr (if ident \<in> set xs then ident else s) \<and>
           connected_scan n h s ident first = Inr (ident \<in> set xs)"
proof -
  from assms(1) have "s \<notin> set xs" by (simp add: ring_def)
  with ring_next_sentinel [OF assms(1)] ring_next_path [OF assms(1)] assms(2)
  show ?thesis by (simp add: disconnect_scan_path connected_scan_path)
qed

lemma disconnect_absent:
  assumes "nodes w xs" and "length xs < n"
    and "fst con \<noteq> this w \<or> (snd con \<notin> set xs \<and> (snd con \<noteq> m_head w \<or> m_head w = 0))"
  shows "disconnect n con w = (Inr False, w)"
proof (cases "fst con \<noteq> this w \<or> m_head w = 0")
  case True
  then show ?thesis by (auto simp: disconnect_def disconnect_id_def)
next
  case False
  with assms(1) have r: "ring (heap w) (m_head w) xs" by (simp add: nodes_def)
  from scan_from_head [OF r assms(2), of "snd con"] assms(3) False
  show ?thesis by (auto simp: disconnect_def disconnect_id_def)
qed

lemma disconnect_idle:
  assumes "nodes w xs" and "m_head w \<noteq> 0" and "length xs < n" and "x \<in> set xs"
    and "m_recursionDepth w = 0"
  obtains H where "disconnect n (this w, x) w = (Inr True, w\<lparr>heap := H\<rparr>)"
    and "ring H (m_head w) (remove1 x xs)"
    and "load_function H = (load_function (heap w))(x := None)"
proof -
  from assms(1,2) have r: "ring (heap w) (m_head w) xs" by (simp add: nodes_def)
  from assms(4) obtain as bs where xs: "xs = as @ x # bs" by (auto dest: split_list)
  from r have "distinct xs" by (simp add: ring_def)
  then have rm: "remove1 x xs = as @ bs" unfolding xs by (simp add: remove1_append)
  from r xs have "ring (heap w) (m_head w) (as @ x # bs)" by simp
  from ring_extract [OF this] obtain h' where h': "extract_node x (heap w) = Some h'"
    "ring (delete_node x h') (m_head w) (as @ bs)"
    "load_function (delete_node x h') = (load_function (heap w))(x := None)" by blast
  from scan_from_head [OF r assms(3), of x] assms(2,4,5) h'(1)
  have "disconnect n (this w, x) w = (Inr True, w\<lparr>heap := delete_node x h'\<rparr>)"
    by (auto simp: disconnect_def disconnect_id_def)
  with h'(2,3) rm that show thesis by metis
qed

lemma disconnect_busy:
  assumes "nodes w xs" and "m_head w \<noteq> 0" and "length xs < n" and "x \<in> set (m_head w # xs)"
    and "m_recursionDepth w \<noteq> 0"
  obtains H where
    "disconnect n (this w, x) w = (Inr True, w\<lparr>heap := H, m_deactivations := True\<rparr>)"
    and "ring H (m_head w) xs"
    and "load_next H = load_next (heap w)" and "load_prev H = load_prev (heap w)"
    and "load_function H = (load_function (heap w))(x \<mapsto> None)"
    and "deactivate x (heap w) = Some H"
proof -
  from assms(1,2) have r: "ring (heap w) (m_head w) xs" by (simp add: nodes_def)
  from ring_deactivate [OF r assms(4)] obtain h' where h': "deactivate x (heap w) = Some h'"
    "ring h' (m_head w) xs" "load_next h' = load_next (heap w)" "load_prev h' = load_prev (heap w)"
    "load_function h' = (load_function (heap w))(x \<mapsto> None)" by blast
  from scan_from_head [OF r assms(3), of x] assms(2,4,5) h'(1)
  have "disconnect n (this w, x) w = (Inr True, w\<lparr>heap := h', m_deactivations := True\<rparr>)"
    by (auto simp: disconnect_def disconnect_id_def)
  with h' that show thesis by metis
qed

lemma is_connected_nodes:
  assumes "nodes w xs" and "length xs < n"
  shows "is_connected n con w = Inr (fst con = this w \<and> snd con \<in> set xs)"
proof (cases "m_head w = 0")
  case True
  with assms(1) show ?thesis by (simp add: is_connected_def connected_id_def nodes_def)
next
  case False
  with assms(1) have r: "ring (heap w) (m_head w) xs" by (simp add: nodes_def)
  from scan_from_head [OF r assms(2), of "snd con"] False
  show ?thesis by (auto simp: is_connected_def connected_id_def)
qed

lemma sweep_nodes:
  assumes "nodes w xs" and "m_head w \<noteq> 0" and "length xs < n"
  obtains H where "sweep n w = (Inr (), w\<lparr>heap := H, m_deactivations := False\<rparr>)"
    and "ring H (m_head w) (filter (active (heap w)) xs)"
    and "load_function H =
          (\<lambda>p. if p \<in> set xs \<and> \<not> active (heap w) p then None else load_function (heap w) p)"
proof -
  from assms(1,2) have r: "ring (heap w) (m_head w) ([] @ xs)" by (simp add: nodes_def)
  from sweep_loop_ring [OF r assms(3)] obtain h' where
    h': "sweep_loop n (m_head w) (hd (xs @ [m_head w])) (heap w) = Inr h'"
    "ring h' (m_head w) ([] @ filter (active (heap w)) xs)"
    "load_function h' =
      (\<lambda>p. if p \<in> set xs \<and> \<not> active (heap w) p then None else load_function (heap w) p)"
    by blast
  from r have "load_next (heap w) (m_head w) = Some (hd (xs @ [m_head w]))"
    by (simp add: ring_next_sentinel)
  with h'(1) have "sweep n w = (Inr (), w\<lparr>heap := h', m_deactivations := False\<rparr>)"
    by (simp add: sweep_def)
  with h'(2,3) that show thesis by simp
qed

section \<open>Lookup of a handle\<close>

lemma three_slots_nodes: "nodes three_slots [2, 3, 4]"
  by (simp add: three_slots_def new_signal_def connect_def new_node_def insert_node_def
      load_prev_def store_prev_def store_next_def nodes_def ring_def load_next_def)

lemma three_slots_fields: "this three_slots = 7" "m_head three_slots = 1"
  "m_recursionDepth three_slots = 0" "m_deactivations three_slots = False"
  by code_simp+

lemma deactivate_twice: "deactivate p h = Some h' \<Longrightarrow> deactivate p h' = Some h'"
proof -
  assume "deactivate p h = Some h'"
  then obtain N where "h p = Some N" and h': "h' = h(p \<mapsto> N\<lparr>m_function := None\<rparr>)"
    by (auto simp: deactivate_def split: option.splits)
  then show ?thesis by (simp add: deactivate_def)
qed

lemma nodes_heap_upd: "nodes (w\<lparr>heap := H\<rparr>) xs = (if m_head w = 0 then xs = [] else ring H (m_head w) xs)"
  by (simp add: nodes_def)

text \<open>
  Claim C6. \<open>connected(handle)\<close> returns true exactly when the handle names this signal
  and its node is one of the nodes reachable in the ring. After \<open>disconnect\<close> during an
  active emission (counter non-zero) the node is deactivated but still linked, and
  \<open>connected\<close> still returns true; after \<open>disconnect\<close> outside any emission the node is
  freed, and \<open>connected\<close> returns false without a memory fault.
\<close>
theorem connected_iff_reachable:
  assumes "nodes w xs" and "length xs < n"
  shows "is_connected n con w = Inr (fst con = this w \<and> snd con \<in> set xs) \<and>
         (\<forall>x \<in> set xs. \<exists>w'. disconnect n (this w, x) w = (Inr True, w') \<and>
            (if m_recursionDepth w = 0
             then heap w' x = None \<and> nodes w' (remove1 x xs) \<and>
                  is_connected n (this w, x) w' = Inr False
             else load_function (heap w') x = Some None \<and> nodes w' xs \<and>
                  is_connected n (this w, x) w' = Inr True))"
proof (intro conjI ballI)
  show "is_connected n con w = Inr (fst con = this w \<and> snd con \<in> set xs)"
    by (rule is_connected_nodes [OF assms])
next
  fix x assume x: "x \<in> set xs"
  with assms(1) have hd: "m_head w \<noteq> 0" by (auto simp: nodes_def split: if_splits)
  from assms(1) hd have d: "distinct xs" by (simp add: nodes_def ring_def)
  show "\<exists>w'. disconnect n (this w, x) w = (Inr True, w') \<and>
            (if m_recursionDepth w = 0
             then heap w' x = None \<and> nodes w' (remove1 x xs) \<and>
                  is_connected n (this w, x) w' = Inr False
             else load_function (heap w') x = Some None \<and> nodes w' xs \<and>
                  is_connected n (this w, x) w' = Inr True)"
  proof (cases "m_recursionDepth w = 0")
    case True
    from disconnect_idle [OF assms(1) hd assms(2) x True] obtain H where
      H: "disconnect n (this w, x) w = (Inr True, w\<lparr>heap := H\<rparr>)"
      "ring H (m_head w) (remove1 x xs)"
      "load_function H = (load_function (heap w))(x := None)" by blast
    have n': "nodes (w\<lparr>heap := H\<rparr>) (remove1 x xs)" using H(2) hd by (simp add: nodes_def)
    have "length (remove1 x xs) < n" using assms(2) by (auto simp: length_remove1)
    from is_connected_nodes [OF n' this, of "(this w, x)"] d
    have "is_connected n (this w, x) (w\<lparr>heap := H\<rparr>) = Inr False" by simp
    moreover have "H x = None" using H(3) by (metis fun_upd_same load_None_iff(3))
    ultimately show ?thesis using H(1) n' True by simp
  next
    case False
    have x': "x \<in> set (m_head w # xs)" using x by simp
    from disconnect_busy [OF assms(1) hd assms(2) x' False] obtain H where
      H: "disconnect n (this w, x) w = (Inr True, w\<lparr>heap := H, m_deactivations := True\<rparr>)"
      "ring H (m_head w) xs"
      "load_function H = (load_function (heap w))(x \<mapsto> None)" by blast
    have n': "nodes (w\<lparr>heap := H, m_deactivations := True\<rparr>) xs"
      using H(2) hd by (simp add: nodes_def)
    from is_connected_nodes [OF n' assms(2), of "(this w, x)"] x
    have "is_connected n (this w, x) (w\<lparr>heap := H, m_deactivations := True\<rparr>) = Inr True"
      by simp
    then show ?thesis using H(1,3) n' False by simp
  qed
qed

theorem connected_iff_reachable_witness:
  "nodes three_slots [2, 3, 4] \<and> length [2, 3, 4 :: nat] < 10 \<and>
   is_connected 10 (7, 3) three_slots = Inr True \<and>
   is_connected 10 (7, 5) three_slots = Inr False \<and>
   is_connected 10 (8, 3) three_slots = Inr False \<and>
   is_connected 10 (7, 3) (snd (disconnect 10 (7, 3) three_slots)) = Inr False \<and>
   is_connected 10 (7, 3)
     (snd (disconnect 10 (7, 3) (three_slots\<lparr>m_recursionDepth := 1\<rparr>))) = Inr True"
proof -
  have n: "nodes three_slots [2, 3, 4]" by (rule three_slots_nodes)
  have n1: "nodes (three_slots\<lparr>m_recursionDepth := 1\<rparr>) [2, 3, 4]"
    using n by (simp add: nodes_def)
  have l: "length [2, 3, 4 :: nat] < 10" by simp
  note a = connected_iff_reachable [OF n l]
  note b = connected_iff_reachable [OF n1 l]
  from a [of "(7, 3)"] a [of "(7, 5)"] a [of "(8, 3)"] b [of "(7, 3)"]
  show ?thesis using n by (auto simp: three_slots_fields)
qed

section \<open>Disconnecting\<close>

text \<open>
  Claim C1 against the code. The handle \<open>(7, 1)\<close> names this signal and the address of
  its sentinel; it does not identify a connected node (the connected nodes are 2, 3
  and 4, and \<open>connected\<close> answers false for it). Outside any emission, \<open>disconnect\<close>
  nevertheless answers true for it: the scan stops at the sentinel, the test
  \<open>node == id\<close> succeeds, and the sentinel is extracted and deleted while \<open>m_head\<close> still
  points to it, so that the next lookup reads freed memory.
\<close>
theorem disconnect_sentinel_handle:
  "nodes three_slots [2, 3, 4] \<and> m_head three_slots = 1 \<and>
   is_connected 10 (7, 1) three_slots = Inr False \<and>
   fst (disconnect 10 (7, 1) three_slots) = Inr True \<and>
   heap (snd (disconnect 10 (7, 1) three_slots)) 1 = None \<and>
   m_head (snd (disconnect 10 (7, 1) three_slots)) = 1 \<and>
   is_connected 10 (7, 2) (snd (disconnect 10 (7, 1) three_slots)) = Inl Memory_fault"
proof -
  have "is_connected 10 (7, 1) three_slots = Inr False" by code_simp
  moreover have "fst (disconnect 10 (7, 1) three_slots) = Inr True" by code_simp
  moreover have "heap (snd (disconnect 10 (7, 1) three_slots)) 1 = None" by code_simp
  moreover have "m_head (snd (disconnect 10 (7, 1) three_slots)) = 1" by code_simp
  moreover have "is_connected 10 (7, 2) (snd (disconnect 10 (7, 1) three_slots)) = Inl Memory_fault"
    by code_simp
  ultimately show ?thesis using three_slots_nodes three_slots_fields by simp
qed

text \<open>
  Claim C10. While the counter is non-zero, \<open>disconnect\<close> of a connected node deactivates
  it (slot cleared, node still linked, flag set) and returns true; a second \<open>disconnect\<close>
  with the same handle returns true again and leaves the whole state, with the ring links
  and the flag, as it was.
\<close>
theorem disconnect_again_during_emission:
  assumes "nodes w xs" and "length xs < n" and "x \<in> set xs" and "m_recursionDepth w \<noteq> 0"
  shows "\<exists>w1. disconnect n (this w, x) w = (Inr True, w1) \<and>
              load_function (heap w1) x = Some None \<and> nodes w1 xs \<and>
              load_next (heap w1) = load_next (heap w) \<and>
              load_prev (heap w1) = load_prev (heap w) \<and>
              m_deactivations w1 \<and>
              disconnect n (this w, x) w1 = (Inr True, w1)"
proof -
  from assms(1,3) have hd: "m_head w \<noteq> 0" by (auto simp: nodes_def split: if_splits)
  have x': "x \<in> set (m_head w # xs)" using assms(3) by simp
  from disconnect_busy [OF assms(1) hd assms(2) x' assms(4)] obtain H where
    H: "disconnect n (this w, x) w = (Inr True, w\<lparr>heap := H, m_deactivations := True\<rparr>)"
    "ring H (m_head w) xs" "load_next H = load_next (heap w)" "load_prev H = load_prev (heap w)"
    "load_function H = (load_function (heap w))(x \<mapsto> None)"
    "deactivate x (heap w) = Some H" by blast
  define w1 where "w1 = w\<lparr>heap := H, m_deactivations := True\<rparr>"
  have n1: "nodes w1 xs" using H(2) hd by (simp add: nodes_def w1_def)
  have f1: "m_head w1 \<noteq> 0" "m_recursionDepth w1 \<noteq> 0" "this w1 = this w"
    "x \<in> set (m_head w1 # xs)"
    using hd assms(3,4) by (simp_all add: w1_def)
  from disconnect_busy [OF n1 f1(1) assms(2) f1(4) f1(2)] obtain H2 where
    H2: "disconnect n (this w1, x) w1 = (Inr True, w1\<lparr>heap := H2, m_deactivations := True\<rparr>)"
    "deactivate x (heap w1) = Some H2" by blast
  have "deactivate x (heap w1) = Some H" using deactivate_twice [OF H(6)] by (simp add: w1_def)
  with H2(2) have "H2 = H" by simp
  then have "w1\<lparr>heap := H2, m_deactivations := True\<rparr> = w1" by (simp add: w1_def)
  with H2(1) f1(3) have "disconnect n (this w, x) w1 = (Inr True, w1)" by simp
  moreover have "load_function (heap w1) x = Some None" using H(5) by (simp add: w1_def)
  moreover have "load_next (heap w1) = load_next (heap w)" "load_prev (heap w1) = load_prev (heap w)"
    using H(3,4) by (simp_all add: w1_def)
  moreover have "m_deactivations w1" by (simp add: w1_def)
  ultimately show ?thesis using H(1) n1 unfolding w1_def by blast
qed

theorem disconnect_again_during_emission_witness:
  "nodes (three_slots\<lparr>m_recursionDepth := 1\<rparr>) [2, 3, 4] \<and> length [2, 3, 4 :: nat] < 10 \<and>
   (3 :: nat) \<in> set [2, 3, 4] \<and> m_recursionDepth (three_slots\<lparr>m_recursionDepth := 1\<rparr>) \<noteq> 0 \<and>
   fst (disconnect 10 (7, 3) (three_slots\<lparr>m_recursionDepth := 1\<rparr>)) = Inr True \<and>
   disconnect 10 (7, 3) (snd (disconnect 10 (7, 3) (three_slots\<lparr>m_recursionDepth := 1\<rparr>))) =
     (Inr True, snd (disconnect 10 (7, 3) (three_slots\<lparr>m_recursionDepth := 1\<rparr>)))"
proof -
  have n1: "nodes (three_slots\<lparr>m_recursionDepth := 1\<rparr>) [2, 3, 4]"
    using three_slots_nodes by (simp add: nodes_def)
  have l: "length [2, 3, 4 :: nat] < 10" and x: "(3 :: nat) \<in> set [2, 3, 4]"
    and d: "m_recursionDepth (three_slots\<lparr>m_recursionDepth := 1\<rparr>) \<noteq> 0" by simp_all
  from disconnect_again_during_emission [OF n1 l x d]
  show ?thesis using n1 by (auto simp: three_slots_fields)
qed

section \<open>Connecting\<close>

lemma new_signal_wf: "well_formed (new_signal t u)" "nodes (new_signal t u) []"
  by (simp_all add: well_formed_def nodes_def new_signal_def)

lemma connect_preserves:
  assumes w: "well_formed w" and xs: "nodes w xs"
  shows "\<exists>q w'. connect f w = (Inr (this w, q), w') \<and> q \<notin> set xs \<and> q \<noteq> 0 \<and>
           lim w \<le> q \<and> lim w' = Suc q \<and>
           m_head w' = (if m_head w = 0 then lim w else m_head w) \<and>
           well_formed w' \<and> nodes w' (xs @ [q]) \<and>
           load_function (heap w') q = Some f \<and>
           (\<forall>p<lim w. load_function (heap w') p = load_function (heap w) p) \<and>
           this w' = this w \<and> m_recursionDepth w' = m_recursionDepth w \<and>
           m_deactivations w' = m_deactivations w \<and> user w' = user w \<and> events w' = events w"
proof -
  from connect_wf [OF w xs, of f] obtain q H where
    c: "connect f w = (Inr (this w, q),
        w\<lparr>heap := H, lim := Suc q, m_head := (if m_head w = 0 then lim w else m_head w)\<rparr>)"
    and r: "ring H (if m_head w = 0 then lim w else m_head w) (xs @ [q])"
    and q: "lim w \<le> q" "q \<noteq> 0"
    and fq: "load_function H q = Some f"
    and old: "\<And>p. p < lim w \<Longrightarrow> load_function H p = load_function (heap w) p"
    and free: "\<And>p. Suc q \<le> p \<Longrightarrow> H p = None" by blast
  define w' where
    "w' = w\<lparr>heap := H, lim := Suc q, m_head := (if m_head w = 0 then lim w else m_head w)\<rparr>"
  from w have l0: "0 < lim w" and h0: "heap w 0 = None" by (simp_all add: well_formed_def)
  have hd': "m_head w' \<noteq> 0" using l0 by (simp add: w'_def)
  have "load_function H 0 = None" using old [of 0] l0 h0 by (simp add: load_None_iff)
  then have H0: "H 0 = None" by (simp add: load_None_iff)
  have well_formed': "well_formed w'"
    unfolding well_formed_def using free H0 r hd' by (auto simp: w'_def)
  have n': "nodes w' (xs @ [q])" using r hd' by (simp add: nodes_def w'_def)
  from r have "distinct (xs @ [q])" by (simp add: ring_def)
  then have qn: "q \<notin> set xs" by simp
  show ?thesis
    using c q fq old well_formed' n' qn unfolding w'_def [symmetric]
    by (simp add: w'_def)
qed







section \<open>Lemmas about the interpreter\<close>

subsection \<open>More fuel does not change a result\<close>

lemma disconnect_scan_mono:
  "disconnect_scan n h s ident node = r \<Longrightarrow> r \<noteq> Inl Out_of_fuel \<Longrightarrow> n \<le> m \<Longrightarrow>
   disconnect_scan m h s ident node = r"
proof (induction n arbitrary: node m)
  case 0
  then show ?case by simp
next
  case (Suc n)
  then obtain m' where m: "m = Suc m'" "n \<le> m'" by (cases m) auto
  from Suc.prems(1,2) Suc.IH [of _ m'] m(2) show ?case unfolding m(1)
    by (auto split: if_splits option.splits)
qed

lemma connected_scan_mono:
  "connected_scan n h s ident node = r \<Longrightarrow> r \<noteq> Inl Out_of_fuel \<Longrightarrow> n \<le> m \<Longrightarrow>
   connected_scan m h s ident node = r"
proof (induction n arbitrary: node m)
  case 0
  then show ?case by simp
next
  case (Suc n)
  then obtain m' where m: "m = Suc m'" "n \<le> m'" by (cases m) auto
  from Suc.prems(1,2) Suc.IH [of _ m'] m(2) show ?case unfolding m(1)
    by (auto split: if_splits option.splits)
qed

lemma sweep_loop_mono:
  "sweep_loop n s node h = r \<Longrightarrow> r \<noteq> Inl Out_of_fuel \<Longrightarrow> n \<le> m \<Longrightarrow>
   sweep_loop m s node h = r"
proof (induction n arbitrary: node h m)
  case 0
  then show ?case by simp
next
  case (Suc n)
  then obtain m' where m: "m = Suc m'" "n \<le> m'" by (cases m) auto
  from Suc.prems(1,2) Suc.IH [of _ _ m'] m(2) show ?case unfolding m(1)
    by (auto split: if_splits option.splits)
qed

lemma disconnect_mono:
  assumes "disconnect n con w = (r, w')" and "r \<noteq> Inl Out_of_fuel" and "n \<le> m"
  shows "disconnect m con w = (r, w')"
proof (cases "fst con \<noteq> this w \<or> m_head w = 0 \<or> load_next (heap w) (m_head w) = None")
  case True
  with assms(1) show ?thesis by (auto simp: disconnect_def disconnect_id_def)
next
  case False
  then obtain first where f: "load_next (heap w) (m_head w) = Some first" by auto
  obtain v where v: "disconnect_scan n (heap w) (m_head w) (snd con) first = v" by simp
  have "v \<noteq> Inl Out_of_fuel"
    using assms(1,2) False f v by (auto simp: disconnect_def disconnect_id_def)
  from disconnect_scan_mono [OF v this assms(3)] v assms(1) False f
  show ?thesis by (simp add: disconnect_def disconnect_id_def)
qed

lemma is_connected_mono:
  assumes "is_connected n con w = r" and "r \<noteq> Inl Out_of_fuel" and "n \<le> m"
  shows "is_connected m con w = r"
  using assms connected_scan_mono [of n "heap w" "m_head w" "snd con" _ r m]
  by (auto simp: is_connected_def connected_id_def split: if_splits option.splits)

lemma sweep_mono:
  assumes "sweep n w = (r, w')" and "r \<noteq> Inl Out_of_fuel" and "n \<le> m"
  shows "sweep m w = (r, w')"
proof (cases "load_next (heap w) (m_head w)")
  case None
  with assms(1) show ?thesis by (simp add: sweep_def)
next
  case (Some first)
  obtain v where v: "sweep_loop n (m_head w) first (heap w) = v" by simp
  have "v \<noteq> Inl Out_of_fuel" using assms(1,2) Some v by (auto simp: sweep_def)
  from sweep_loop_mono [OF v this assms(3)] v assms(1) Some
  show ?thesis by (simp add: sweep_def)
qed

lemma interp_mono_aux:
  "\<forall>m\<ge>n.
     (\<forall>(p :: ('a, 'r, 'g, 'u) prog) w r w'.
         run n p w = (r, w') \<longrightarrow> r \<noteq> Inl Out_of_fuel \<longrightarrow> run m p w = (r, w')) \<and>
     (\<forall>f x agg ctl g node (w :: ('a, 'r, 'g, 'u) signal) r w'. invoke n f x agg ctl g node w = (r, w') \<longrightarrow>
         r \<noteq> Inl Out_of_fuel \<longrightarrow> invoke m f x agg ctl g node w = (r, w')) \<and>
     (\<forall>x agg ctl node ok g (w :: ('a, 'r, 'g, 'u) signal) r w'. emit_loop n x agg ctl node ok g w = (r, w') \<longrightarrow>
         r \<noteq> Inl Out_of_fuel \<longrightarrow> emit_loop m x agg ctl node ok g w = (r, w')) \<and>
     (\<forall>x agg g0 ctl (w :: ('a, 'r, 'g, 'u) signal) r w'. emit n x agg g0 ctl w = (r, w') \<longrightarrow>
         r \<noteq> Inl Out_of_fuel \<longrightarrow> emit m x agg g0 ctl w = (r, w'))"
proof (induction n)
  case 0
  show ?case by simp
next
  case (Suc n)
  show ?case
  proof (intro allI impI)
    fix m assume "Suc n \<le> m"
    then obtain k where m: "m = Suc k" and nk: "n \<le> k" by (cases m) auto
    note ih = Suc.IH [THEN spec, of k, THEN mp, OF nk]
    note R = ih [THEN conjunct1, rule_format]
    note I = ih [THEN conjunct2, THEN conjunct1, rule_format]
    note L = ih [THEN conjunct2, THEN conjunct2, THEN conjunct1, rule_format]
    note E = ih [THEN conjunct2, THEN conjunct2, THEN conjunct2, rule_format]
    note D = disconnect_mono [OF _ _ nk]
    note C = is_connected_mono [OF _ _ nk]
    note S = sweep_mono [OF _ _ nk]
    have run_case: "run m p w = (r, w')"
      if "run (Suc n) p w = (r, w')" "r \<noteq> Inl Out_of_fuel"
      for p :: "('a, 'r, 'g, 'u) prog" and w r w'
    proof (cases p)
      case (Ret x)
      with that show ?thesis by (simp add: m)
    next
      case (Throw e)
      with that show ?thesis by (simp add: m)
    next
      case (Local f)
      obtain u p' where f: "f (user w) = (u, p')" by (cases "f (user w)")
      with that Local R [of p' "w\<lparr>user := u\<rparr>" r w'] show ?thesis by (simp add: m)
    next
      case (Connect f c)
      obtain a w1 where c: "connect f w = (a, w1)" by (cases "connect f w")
      with that Connect show ?thesis
        by (cases a) (auto simp: m dest: R)
    next
      case (Disconnect con c)
      obtain a w1 where d: "disconnect n con (log (Consulted (m_recursionDepth w)) w) = (a, w1)"
        by (cases "disconnect n con (log (Consulted (m_recursionDepth w)) w)")
      have "a \<noteq> Inl Out_of_fuel" using that Disconnect d by (cases a) auto
      from D [OF d this] d that Disconnect show ?thesis
        by (cases a) (auto simp: m dest: R)
    next
      case (Connected con c)
      obtain a where d: "is_connected n con w = a" by simp
      have "a \<noteq> Inl Out_of_fuel" using that Connected d by (cases a) auto
      from C [OF d this] d that Connected show ?thesis
        by (cases a) (auto simp: m dest: R)
    next
      case (Emit x agg g0 ctl c handler)
      obtain a w1 where d: "emit n x agg g0 ctl w = (a, w1)" by (cases "emit n x agg g0 ctl w")
      have "a \<noteq> Inl Out_of_fuel" using that Emit d by (cases a) (auto split: error.splits)
      from E [OF d this] d that Emit show ?thesis
        by (cases a) (auto simp: m dest: R split: error.splits)
    qed
    have invoke_case: "invoke m f x agg ctl g node w = (r, w')"
      if "invoke (Suc n) f x agg ctl g node w = (r, w')" "r \<noteq> Inl Out_of_fuel"
      for f :: "('a, 'r, 'g, 'u) slot" and x agg ctl g node w r w'
    proof -
      obtain a w1 where d: "run n (f x) (log (Called (m_recursionDepth w) node x) w) = (a, w1)"
        by (cases "run n (f x) (log (Called (m_recursionDepth w) node x) w)")
      have "a \<noteq> Inl Out_of_fuel" using that d by (cases a) (auto split: error.splits)
      from R [OF d this] d that show ?thesis by (simp add: m)
    qed
    have loop_go: "emit_loop m x agg ctl node True g w = (r, w')"
      if run: "emit_loop (Suc n) x agg ctl node True g w = (r, w')" and r: "r \<noteq> Inl Out_of_fuel"
        and node: "node \<noteq> m_head w"
      for x agg ctl node g and w :: "('a, 'r, 'g, 'u) signal" and r w'
    proof (cases "load_function (heap (scoped_increment w)) node")
      case None
      with run node show ?thesis by (auto simp: m Let_def)
    next
      case (Some fo)
      define step where "step = (case fo of None \<Rightarrow> (Inr (True, g), scoped_increment w)
          | Some f \<Rightarrow> invoke n f x agg ctl g node (scoped_increment w))"
      define step' where "step' = (case fo of None \<Rightarrow> (Inr (True, g), scoped_increment w)
          | Some f \<Rightarrow> invoke k f x agg ctl g node (scoped_increment w))"
      obtain a w2 where a: "step = (a, w2)" by (cases step)
      have n1: "emit_loop (Suc n) x agg ctl node True g w =
          (case step of
              (Inr (ok', g'), w2) \<Rightarrow>
                (case load_next (heap w2) node of
                   None \<Rightarrow> (Inl Memory_fault, w2)
                 | Some nx \<Rightarrow> emit_loop n x agg ctl nx ok' g' (scoped_decrement w2))
            | (Inl (Slot_error e), w2) \<Rightarrow> (Inl (Slot_error e), scoped_decrement w2)
            | (Inl e, w2) \<Rightarrow> (Inl e, w2))"
        using node Some by (simp add: Let_def step_def)
      have n2: "emit_loop (Suc k) x agg ctl node True g w =
          (case step' of
              (Inr (ok', g'), w2) \<Rightarrow>
                (case load_next (heap w2) node of
                   None \<Rightarrow> (Inl Memory_fault, w2)
                 | Some nx \<Rightarrow> emit_loop k x agg ctl nx ok' g' (scoped_decrement w2))
            | (Inl (Slot_error e), w2) \<Rightarrow> (Inl (Slot_error e), scoped_decrement w2)
            | (Inl e, w2) \<Rightarrow> (Inl e, w2))"
        using node Some by (simp add: Let_def step'_def)
      have "a \<noteq> Inl Out_of_fuel" using run r a unfolding n1
        by (cases a) (auto split: error.splits)
      then have "step' = (a, w2)" using a unfolding step_def step'_def
        by (cases fo) (auto dest: I)
      with run r a show ?thesis unfolding n1 n2 m
        by (cases a) (auto split: error.splits option.splits dest: L)
    qed
    have loop_case: "emit_loop m x agg ctl node ok g w = (r, w')"
      if "emit_loop (Suc n) x agg ctl node ok g w = (r, w')" "r \<noteq> Inl Out_of_fuel"
      for x agg ctl node ok g and w :: "('a, 'r, 'g, 'u) signal" and r w'
    proof (cases "node \<noteq> m_head w \<and> ok")
      case False
      with that show ?thesis by (auto simp: m)
    next
      case True
      then have "ok = True" by simp
      with that True loop_go show ?thesis by blast
    qed
    have emit_case: "emit m x agg g0 ctl w = (r, w')"
      if "emit (Suc n) x agg g0 ctl w = (r, w')" "r \<noteq> Inl Out_of_fuel"
      for x agg g0 ctl and w :: "('a, 'r, 'g, 'u) signal" and r w'
    proof (cases "m_head w \<noteq> 0")
      case False
      with that show ?thesis by (auto simp: m)
    next
      case True
      show ?thesis
      proof (cases "load_next (heap w) (m_head w)")
        case None
        with that True show ?thesis by (auto simp: m)
      next
        case (Some first)
        obtain a w1 where a: "emit_loop n x agg ctl first True g0 w = (a, w1)"
          by (cases "emit_loop n x agg ctl first True g0 w")
        have "a \<noteq> Inl Out_of_fuel" using that a True Some by (cases a) auto
        from L [OF a this] have a': "emit_loop k x agg ctl first True g0 w = (a, w1)" .
        show ?thesis
        proof (cases a)
          case (Inl e)
          with that a a' True Some show ?thesis by (simp add: m)
        next
          case (Inr okg)
          obtain ok g where okg: "okg = (ok, g)" by (cases okg)
          show ?thesis
          proof (cases "m_recursionDepth w1 = 0 \<and> m_deactivations w1")
            case False
            with that a a' True Some Inr okg show ?thesis by (auto simp: m)
          next
            case sw: True
            obtain b w2 where b: "sweep n w1 = (b, w2)" by (cases "sweep n w1")
            have "b \<noteq> Inl Out_of_fuel" using that a True Some Inr okg sw b by (cases b) auto
            from S [OF b this] that a a' True Some Inr okg sw b show ?thesis
              by (cases b) (auto simp: m)
          qed
        qed
      qed
    qed
    show "(\<forall>(p :: ('a, 'r, 'g, 'u) prog) w r w'. run (Suc n) p w = (r, w') \<longrightarrow>
              r \<noteq> Inl Out_of_fuel \<longrightarrow> run m p w = (r, w')) \<and>
     (\<forall>f x agg ctl g node (w :: ('a, 'r, 'g, 'u) signal) r w'. invoke (Suc n) f x agg ctl g node w = (r, w') \<longrightarrow>
         r \<noteq> Inl Out_of_fuel \<longrightarrow> invoke m f x agg ctl g node w = (r, w')) \<and>
     (\<forall>x agg ctl node ok g (w :: ('a, 'r, 'g, 'u) signal) r w'. emit_loop (Suc n) x agg ctl node ok g w = (r, w') \<longrightarrow>
         r \<noteq> Inl Out_of_fuel \<longrightarrow> emit_loop m x agg ctl node ok g w = (r, w')) \<and>
     (\<forall>x agg g0 ctl (w :: ('a, 'r, 'g, 'u) signal) r w'. emit (Suc n) x agg g0 ctl w = (r, w') \<longrightarrow>
         r \<noteq> Inl Out_of_fuel \<longrightarrow> emit m x agg g0 ctl w = (r, w'))"
      using run_case invoke_case loop_case emit_case by blast
  qed
qed

lemma run_mono:
  "run n p w = (r, w') \<Longrightarrow> r \<noteq> Inl Out_of_fuel \<Longrightarrow> n \<le> m \<Longrightarrow> run m p w = (r, w')"
  by (rule interp_mono_aux [THEN spec, THEN mp, THEN conjunct1, rule_format])

lemma invoke_mono:
  "invoke n f x agg ctl g node w = (r, w') \<Longrightarrow> r \<noteq> Inl Out_of_fuel \<Longrightarrow> n \<le> m \<Longrightarrow>
   invoke m f x agg ctl g node w = (r, w')"
  by (rule interp_mono_aux [THEN spec, THEN mp, THEN conjunct2, THEN conjunct1, rule_format])

lemma emit_loop_mono:
  "emit_loop n x agg ctl node ok g w = (r, w') \<Longrightarrow> r \<noteq> Inl Out_of_fuel \<Longrightarrow> n \<le> m \<Longrightarrow>
   emit_loop m x agg ctl node ok g w = (r, w')"
  by (rule interp_mono_aux [THEN spec, THEN mp, THEN conjunct2, THEN conjunct2, THEN conjunct1, rule_format])

lemma emit_mono:
  "emit n x agg g0 ctl w = (r, w') \<Longrightarrow> r \<noteq> Inl Out_of_fuel \<Longrightarrow> n \<le> m \<Longrightarrow>
   emit m x agg g0 ctl w = (r, w')"
  by (rule interp_mono_aux [THEN spec, THEN mp, THEN conjunct2, THEN conjunct2, THEN conjunct2, rule_format])

subsection \<open>Stepping the loop of emit\<close>

lemma yields_run:
  "yields p u r u' \<Longrightarrow> user w = u \<Longrightarrow> \<exists>n. run n p w = (Inr r, w\<lparr>user := u'\<rparr>)"
proof (induction arbitrary: w rule: yields.induct)
  case (yields_Ret r u)
  have "run (Suc 0) (Ret r) w = (Inr r, w\<lparr>user := u\<rparr>)" using yields_Ret by simp
  then show ?case by blast
next
  case (yields_Local f u u1 p r u')
  from yields_Local.IH [of "w\<lparr>user := u1\<rparr>"] obtain n where
    "run n p (w\<lparr>user := u1\<rparr>) = (Inr r, w\<lparr>user := u'\<rparr>)" by auto
  then have "run (Suc n) (Local f) w = (Inr r, w\<lparr>user := u'\<rparr>)"
    using yields_Local.hyps(1) yields_Local.prems by simp
  then show ?case by blast
qed

lemma emit_loop_done:
  "node = m_head w \<or> \<not> ok \<Longrightarrow> emit_loop (Suc n) x agg ctl node ok g w = (Inr (ok, g), w)"
  by auto

lemma emit_loop_skip:
  assumes "node \<noteq> m_head w" and "load_function (heap w) node = Some None"
    and "load_next (heap w) node = Some nx"
  shows "emit_loop (Suc n) x agg ctl node True g w = emit_loop n x agg ctl nx True g w"
  using assms by (simp add: scoped_increment_def scoped_decrement_def Let_def)

lemma emit_loop_call:
  assumes "node \<noteq> m_head w" and "load_function (heap w) node = Some (Some f)"
    and "yields (f x) (user w) r u'" and "load_next (heap w) node = Some nx"
  shows "\<exists>k. \<forall>n\<ge>k. emit_loop (Suc n) x agg ctl node True g w =
           emit_loop n x agg ctl nx (ctl r) (agg r g)
             (w\<lparr>user := u',
                events := events w @ [Called (Suc (m_recursionDepth w)) node x,
                                      Returned (Suc (m_recursionDepth w)) node r]\<rparr>)"
proof -
  define w1 where "w1 = log (Called (Suc (m_recursionDepth w)) node x) (scoped_increment w)"
  have "user w1 = user w" by (simp add: w1_def log_def scoped_increment_def)
  from yields_run [OF assms(3) this] obtain k where
    k: "run k (f x) w1 = (Inr r, w1\<lparr>user := u'\<rparr>)" by blast
  have "emit_loop (Suc n) x agg ctl node True g w =
           emit_loop n x agg ctl nx (ctl r) (agg r g)
             (w\<lparr>user := u',
                events := events w @ [Called (Suc (m_recursionDepth w)) node x,
                                      Returned (Suc (m_recursionDepth w)) node r]\<rparr>)"
    if "Suc k \<le> n" for n
  proof -
    from that obtain n' where n': "n = Suc n'" "k \<le> n'" by (cases n) auto
    from run_mono [OF k _ n'(2)] have "run n' (f x) w1 = (Inr r, w1\<lparr>user := u'\<rparr>)" by simp
    then have "invoke n f x agg ctl g node (scoped_increment w) =
        (Inr (ctl r, agg r g),
         log (Returned (Suc (m_recursionDepth w)) node r) (w1\<lparr>user := u'\<rparr>))"
      unfolding n'(1) by (simp add: w1_def scoped_increment_def log_def)
    then show ?thesis using assms(1,2,4)
      by (simp add: Let_def w1_def scoped_increment_def scoped_decrement_def log_def)
  qed
  then show ?thesis by blast
qed

lemma emit_from_loop:
  assumes "nodes w xs" and "m_head w \<noteq> 0"
    and "emit_loop n x agg ctl (hd (xs @ [m_head w])) True g0 w = (Inr (ok, g), w1)"
    and "nodes w1 ys" and "m_head w1 = m_head w" and "length ys < n"
  obtains w' where "emit (Suc n) x agg g0 ctl w = (Inr g, w')"
    and "if m_recursionDepth w1 = 0 \<and> m_deactivations w1
         then \<exists>H. w' = w1\<lparr>heap := H, m_deactivations := False\<rparr> \<and>
                  ring H (m_head w1) (filter (active (heap w1)) ys) \<and>
                  load_function H = (\<lambda>p. if p \<in> set ys \<and> \<not> active (heap w1) p then None
                                          else load_function (heap w1) p)
         else w' = w1"
proof -
  from assms(1,2) have "ring (heap w) (m_head w) xs" by (simp add: nodes_def)
  then have first: "load_next (heap w) (m_head w) = Some (hd (xs @ [m_head w]))"
    by (rule ring_next_sentinel)
  show thesis
  proof (cases "m_recursionDepth w1 = 0 \<and> m_deactivations w1")
    case False
    with assms(2,3) first have "emit (Suc n) x agg g0 ctl w = (Inr g, w1)" by auto
    with False that show thesis by auto
  next
    case True
    from assms(2,5) have hd1: "m_head w1 \<noteq> 0" by simp
    from sweep_nodes [OF assms(4) hd1 assms(6)] obtain H where
      H: "sweep n w1 = (Inr (), w1\<lparr>heap := H, m_deactivations := False\<rparr>)"
      "ring H (m_head w1) (filter (active (heap w1)) ys)"
      "load_function H =
          (\<lambda>p. if p \<in> set ys \<and> \<not> active (heap w1) p then None else load_function (heap w1) p)"
      by blast
    from assms(2,3) first True H(1)
    have "emit (Suc n) x agg g0 ctl w = (Inr g, w1\<lparr>heap := H, m_deactivations := False\<rparr>)"
      by auto
    with True H(2,3) that show thesis by auto
  qed
qed

lemma last_while_true_loop:
  assumes n: "nodes w [a, b, c]" and hd: "m_head w \<noteq> 0"
    and fa: "load_function (heap w) a = Some (Some A)"
    and fb: "load_function (heap w) b = Some (Some B)"
    and ya: "\<And>u. \<exists>u'. yields (A x) u True u'"
    and yb: "\<And>u. \<exists>u'. yields (B x) u False u'"
  shows "\<exists>k. \<forall>n\<ge>k. \<exists>u'.
           emit_loop n x agg (condition_while True) a True g0 w =
             (Inr (False, agg False (agg True g0)),
              w\<lparr>user := u',
                events := events w @
                  [Called (Suc (m_recursionDepth w)) a x, Returned (Suc (m_recursionDepth w)) a True,
                   Called (Suc (m_recursionDepth w)) b x, Returned (Suc (m_recursionDepth w)) b False]\<rparr>)"
proof -
  let ?d = "Suc (m_recursionDepth w)"
  from n hd have r: "ring (heap w) (m_head w) [a, b, c]" by (simp add: nodes_def)
  then have ne: "a \<noteq> m_head w" "b \<noteq> m_head w" by (auto simp: ring_def)
  from ring_next_mid [of "heap w" "m_head w" "[]" a "[b, c]"] r
  have na: "load_next (heap w) a = Some b" by simp
  from ring_next_mid [of "heap w" "m_head w" "[a]" b "[c]"] r
  have nb: "load_next (heap w) b = Some c" by simp
  from ya obtain u1 where u1: "yields (A x) (user w) True u1" by blast
  define w1 where "w1 = w\<lparr>user := u1, events := events w @ [Called ?d a x, Returned ?d a True]\<rparr>"
  from yb obtain u2 where u2: "yields (B x) (user w1) False u2" by blast
  define w2 where "w2 = w1\<lparr>user := u2, events := events w1 @ [Called ?d b x, Returned ?d b False]\<rparr>"
  from emit_loop_call [OF ne(1) fa u1 na, of agg "condition_while True" g0] obtain k1 where
    k1: "\<And>n. k1 \<le> n \<Longrightarrow> emit_loop (Suc n) x agg (condition_while True) a True g0 w =
           emit_loop n x agg (condition_while True) b True (agg True g0) w1"
    unfolding w1_def by (auto simp: condition_while_def)
  have "b \<noteq> m_head w1" "load_function (heap w1) b = Some (Some B)"
    "load_next (heap w1) b = Some c" "m_recursionDepth w1 = m_recursionDepth w"
    using ne fb nb by (simp_all add: w1_def)
  with emit_loop_call [of b w1 B x False u2 c agg "condition_while True" "agg True g0"] u2
  obtain k2 where
    k2: "\<And>n. k2 \<le> n \<Longrightarrow> emit_loop (Suc n) x agg (condition_while True) b True (agg True g0) w1 =
           emit_loop n x agg (condition_while True) c False (agg False (agg True g0)) w2"
    unfolding w2_def by (auto simp: condition_while_def)
  have "emit_loop n x agg (condition_while True) a True g0 w =
          (Inr (False, agg False (agg True g0)), w2)" if "k1 + k2 + 3 \<le> n" for n
  proof -
    define m where "m = n - 3"
    have m: "n = Suc (Suc (Suc m))" "k1 \<le> Suc (Suc m)" "k2 \<le> Suc m"
      using that by (simp_all add: m_def)
    show ?thesis unfolding m(1) k1 [OF m(2)] k2 [OF m(3)] by simp
  qed
  then show ?thesis unfolding w2_def w1_def by (intro exI [of _ "k1 + k2 + 3"]) auto
qed

section \<open>Stopping an emission\<close>

lemma connect_three:
  assumes w0: "well_formed w0" and n0: "nodes w0 xs"
  shows "\<exists>a b c w1 w2 w3.
      connect fa w0 = (Inr (this w0, a), w1) \<and> connect fb w1 = (Inr (this w0, b), w2) \<and>
      connect fc w2 = (Inr (this w0, c), w3) \<and>
      well_formed w3 \<and> nodes w3 (xs @ [a, b, c]) \<and> m_head w3 \<noteq> 0 \<and>
      load_function (heap w3) a = Some fa \<and> load_function (heap w3) b = Some fb \<and>
      load_function (heap w3) c = Some fc \<and>
      (\<forall>p<lim w0. load_function (heap w3) p = load_function (heap w0) p) \<and>
      m_recursionDepth w3 = m_recursionDepth w0 \<and> m_deactivations w3 = m_deactivations w0 \<and>
      user w3 = user w0 \<and> events w3 = events w0 \<and> this w3 = this w0"
proof -
  from connect_preserves [OF w0 n0, of fa] obtain a w1 where
    1: "connect fa w0 = (Inr (this w0, a), w1)" "lim w0 \<le> a" "lim w1 = Suc a"
      "well_formed w1" "nodes w1 (xs @ [a])" "load_function (heap w1) a = Some fa"
      "\<forall>p<lim w0. load_function (heap w1) p = load_function (heap w0) p"
      "this w1 = this w0" "m_recursionDepth w1 = m_recursionDepth w0"
      "m_deactivations w1 = m_deactivations w0" "user w1 = user w0" "events w1 = events w0"
    by blast
  from connect_preserves [OF 1(4,5), of fb] obtain b w2 where
    2: "connect fb w1 = (Inr (this w1, b), w2)" "lim w1 \<le> b" "lim w2 = Suc b"
      "well_formed w2" "nodes w2 ((xs @ [a]) @ [b])" "load_function (heap w2) b = Some fb"
      "\<forall>p<lim w1. load_function (heap w2) p = load_function (heap w1) p"
      "this w2 = this w1" "m_recursionDepth w2 = m_recursionDepth w1"
      "m_deactivations w2 = m_deactivations w1" "user w2 = user w1" "events w2 = events w1"
    by blast
  from connect_preserves [OF 2(4,5), of fc] obtain c w3 where
    3: "connect fc w2 = (Inr (this w2, c), w3)" "lim w2 \<le> c" "lim w3 = Suc c"
      "m_head w3 = (if m_head w2 = 0 then lim w2 else m_head w2)"
      "well_formed w3" "nodes w3 (((xs @ [a]) @ [b]) @ [c])" "load_function (heap w3) c = Some fc"
      "\<forall>p<lim w2. load_function (heap w3) p = load_function (heap w2) p"
      "this w3 = this w2" "m_recursionDepth w3 = m_recursionDepth w2"
      "m_deactivations w3 = m_deactivations w2" "user w3 = user w2" "events w3 = events w2"
    by blast
  from 2(4) have "0 < lim w2" by (simp add: well_formed_def)
  with 3(4) have hd: "m_head w3 \<noteq> 0" by auto
  have "load_function (heap w3) a = Some fa" using 1(3,6) 2(2,3,7) 3(8) by simp
  moreover have "load_function (heap w3) b = Some fb" using 2(3,6) 3(8) by simp
  moreover have "\<forall>p<lim w0. load_function (heap w3) p = load_function (heap w0) p"
    using 1(2,3,7) 2(2,3,7) 3(8) by simp
  ultimately show ?thesis using 1 2 3 hd by simp
qed

text \<open>
  Claim C9. On a signal with no other slot, connect a slot that returns \<open>true\<close>, a slot
  that returns \<open>false\<close> and any third slot \<open>C\<close> (empty, aborting, anything), in this
  order. With enough fuel, \<open>emit\<close> with \<open>aggregation_last\<close> and
  \<open>condition_while<bool, true>\<close> returns \<open>false\<close>, and the calls it has made are exactly:
  the first slot, then the second; the third node is never called.
\<close>
theorem last_while_true_stops_at_false:
  assumes "well_formed w0" and "nodes w0 []"
    and "\<And>u. \<exists>u'. yields (A x) u True u'" and "\<And>u. \<exists>u'. yields (B x) u False u'"
  shows "\<exists>a b c w1 w2 w3.
      connect (Some A) w0 = (Inr (this w0, a), w1) \<and>
      connect (Some B) w1 = (Inr (this w0, b), w2) \<and>
      connect C w2 = (Inr (this w0, c), w3) \<and>
      (\<exists>k. \<forall>n\<ge>k. \<exists>w'.
         signal_emit n x (aggregation_last v0) (condition_while True) w3 = (Inr False, w') \<and>
         events w' = events w0 @
           [Called (Suc (m_recursionDepth w0)) a x, Returned (Suc (m_recursionDepth w0)) a True,
            Called (Suc (m_recursionDepth w0)) b x, Returned (Suc (m_recursionDepth w0)) b False])"
proof -
  let ?d = "Suc (m_recursionDepth w0)"
  let ?agg = "aggregate (aggregation_last v0)"
  from connect_three [OF assms(1,2), of "Some A" "Some B" C] obtain a b c w1 w2 w3 where
    c: "connect (Some A) w0 = (Inr (this w0, a), w1)" "connect (Some B) w1 = (Inr (this w0, b), w2)"
      "connect C w2 = (Inr (this w0, c), w3)"
    and w3: "nodes w3 [a, b, c]" "m_head w3 \<noteq> 0"
      "load_function (heap w3) a = Some (Some A)" "load_function (heap w3) b = Some (Some B)"
      "m_recursionDepth w3 = m_recursionDepth w0" "events w3 = events w0"
    by auto
  from last_while_true_loop [OF w3(1-4) assms(3,4), of ?agg "initial (aggregation_last v0)"]
  obtain k where k: "\<And>n. k \<le> n \<Longrightarrow> \<exists>u'.
      emit_loop n x ?agg (condition_while True) a True (initial (aggregation_last v0)) w3 =
        (Inr (False, False),
         w3\<lparr>user := u', events := events w0 @
            [Called ?d a x, Returned ?d a True, Called ?d b x, Returned ?d b False]\<rparr>)"
    unfolding w3(5,6) by (auto simp: aggregation_last_def)
  have "\<exists>w'. signal_emit n x (aggregation_last v0) (condition_while True) w3 = (Inr False, w') \<and>
         events w' = events w0 @
           [Called ?d a x, Returned ?d a True, Called ?d b x, Returned ?d b False]"
    if "k + 5 \<le> n" for n
  proof -
    define m where "m = n - 1"
    have m: "n = Suc m" "k \<le> m" "length [a, b, c] < m" using that by (simp_all add: m_def)
    from k [OF m(2)] obtain u' where
      l: "emit_loop m x ?agg (condition_while True) (hd ([a, b, c] @ [m_head w3])) True
            (initial (aggregation_last v0)) w3 =
        (Inr (False, False),
         w3\<lparr>user := u', events := events w0 @
            [Called ?d a x, Returned ?d a True, Called ?d b x, Returned ?d b False]\<rparr>)"
      by auto
    let ?w1 = "w3\<lparr>user := u', events := events w0 @
            [Called ?d a x, Returned ?d a True, Called ?d b x, Returned ?d b False]\<rparr>"
    have n1: "nodes ?w1 [a, b, c]" "m_head ?w1 = m_head w3" using w3(1) by (simp_all add: nodes_def)
    from emit_from_loop [OF w3(1,2) l n1 m(3)] obtain w' where
      w': "emit (Suc m) x ?agg (initial (aggregation_last v0)) (condition_while True) w3 = (Inr False, w')"
      "if m_recursionDepth ?w1 = 0 \<and> m_deactivations ?w1
         then \<exists>H. w' = ?w1\<lparr>heap := H, m_deactivations := False\<rparr> \<and>
                  ring H (m_head ?w1) (filter (active (heap ?w1)) [a, b, c]) \<and>
                  load_function H = (\<lambda>p. if p \<in> set [a, b, c] \<and> \<not> active (heap ?w1) p then None
                                          else load_function (heap ?w1) p)
         else w' = ?w1" by blast
    from w'(2) have "events w' = events ?w1" by (auto split: if_splits)
    with w'(1) show ?thesis unfolding m(1)
      by (simp add: signal_emit_def aggregation_last_def)
  qed
  then have "\<exists>k. \<forall>n\<ge>k. \<exists>w'.
         signal_emit n x (aggregation_last v0) (condition_while True) w3 = (Inr False, w') \<and>
         events w' = events w0 @
           [Called ?d a x, Returned ?d a True, Called ?d b x, Returned ?d b False]" by blast
  with c show ?thesis by blast
qed

lemma three_slots_connects:
  "connect (Some (\<lambda>_. Ret True)) (new_signal 7 () :: (unit, bool, bool, unit) signal) = (a, w1) \<Longrightarrow>
   connect (Some (\<lambda>_. Ret False)) w1 = (b, w2) \<Longrightarrow>
   connect (Some (\<lambda>_. Throw ''abort'')) w2 = (c, w3) \<Longrightarrow>
   w3 = three_slots \<and> a = Inr (7, 2) \<and> b = Inr (7, 3) \<and> c = Inr (7, 4)"
  unfolding three_slots_def
  by (auto simp: new_signal_def connect_def new_node_def insert_node_def
      load_prev_def store_prev_def store_next_def numeral_nat Let_def)

theorem last_while_true_stops_at_false_witness:
  "well_formed (new_signal 7 () :: (unit, bool, bool, unit) signal) \<and>
   nodes (new_signal 7 () :: (unit, bool, bool, unit) signal) [] \<and>
   yields (Ret True :: (unit, bool, bool, unit) prog) () True () \<and>
   yields (Ret False :: (unit, bool, bool, unit) prog) () False () \<and>
   (\<exists>n w'. signal_emit n () (aggregation_last False) (condition_while True) three_slots
              = (Inr False, w') \<and>
            events w' = [Called 1 2 (), Returned 1 2 True, Called 1 3 (), Returned 1 3 False])"
proof -
  let ?w0 = "new_signal 7 () :: (unit, bool, bool, unit) signal"
  have y: "\<And>u. \<exists>u'. yields ((\<lambda>_. Ret True :: (unit, bool, bool, unit) prog) ()) u True u'"
    "\<And>u. \<exists>u'. yields ((\<lambda>_. Ret False :: (unit, bool, bool, unit) prog) ()) u False u'"
    by (auto intro: yields.intros)
  from last_while_true_stops_at_false [OF new_signal_wf [of 7 "()"] y,
      where C = "Some (\<lambda>_. Throw ''abort'')" and ?v0.0 = False]
  obtain a b c w1 w2 w3 k where
    c: "connect (Some (\<lambda>_. Ret True)) ?w0 = (Inr (this ?w0, a), w1)"
      "connect (Some (\<lambda>_. Ret False)) w1 = (Inr (this ?w0, b), w2)"
      "connect (Some (\<lambda>_. Throw ''abort'')) w2 = (Inr (this ?w0, c), w3)"
    and k: "\<forall>n\<ge>k. \<exists>w'.
         signal_emit n () (aggregation_last False) (condition_while True) w3 = (Inr False, w') \<and>
         events w' = events ?w0 @
           [Called (Suc (m_recursionDepth ?w0)) a (), Returned (Suc (m_recursionDepth ?w0)) a True,
            Called (Suc (m_recursionDepth ?w0)) b (), Returned (Suc (m_recursionDepth ?w0)) b False]"
    by blast
  from three_slots_connects [OF c] have e: "w3 = three_slots" "a = 2" "b = 3" by simp_all
  from k [rule_format, of k] obtain w' where
    "signal_emit k () (aggregation_last False) (condition_while True) three_slots = (Inr False, w')"
    "events w' = [Called 1 2 (), Returned 1 2 True, Called 1 3 (), Returned 1 3 False]"
    unfolding e by (auto simp: new_signal_def)
  then show ?thesis using new_signal_wf [of 7 "()"] by (auto intro: yields.intros)
qed

subsection \<open>The counter and the log\<close>

lemma nesting_append: "nesting d (es @ fs) = nesting (nesting d es) fs"
  by (induction d es rule: nesting.induct) auto

lemma accurate_append: "accurate d (es @ fs) \<longleftrightarrow> accurate d es \<and> accurate (nesting d es) fs"
  by (induction d es rule: accurate.induct) auto

lemma above_mono: "above (Suc d) e \<Longrightarrow> above d e"
  by (cases e) auto

lemma above_mono_all: "list_all (above (Suc d)) es \<Longrightarrow> list_all (above d) es"
  by (induction es) (auto intro: above_mono)

lemma counted_refl: "counted w w d fin"
  by (simp add: counted_def)

lemma counted_trans:
  "counted w w1 d True \<Longrightarrow> counted w1 w2 d fin \<Longrightarrow> counted w w2 d fin"
  by (auto simp: counted_def accurate_append nesting_append)

lemma counted_weaken: "counted w w' d fin \<Longrightarrow> counted w w' d False"
  by (auto simp: counted_def)

lemma counted_same:
  "events w' = events w \<Longrightarrow> m_recursionDepth w' = m_recursionDepth w \<Longrightarrow> counted w w' d fin"
  by (simp add: counted_def)

lemma disconnect_fields:
  "disconnect n con w = (r, w') \<Longrightarrow>
   events w' = events w \<and> m_recursionDepth w' = m_recursionDepth w \<and> user w' = user w \<and>
   this w' = this w \<and> m_head w' = m_head w \<and> lim w' = lim w"
  by (auto simp: disconnect_def disconnect_id_def split: if_splits option.splits sum.splits)

lemma connect_fields:
  "connect f w = (r, w') \<Longrightarrow>
   events w' = events w \<and> m_recursionDepth w' = m_recursionDepth w \<and> user w' = user w \<and>
   this w' = this w \<and> m_deactivations w' = m_deactivations w"
  by (auto simp: connect_def new_node_def Let_def split: if_splits option.splits)

lemma sweep_fields:
  "sweep n w = (r, w') \<Longrightarrow>
   events w' = events w \<and> m_recursionDepth w' = m_recursionDepth w \<and> user w' = user w \<and>
   this w' = this w \<and> m_head w' = m_head w \<and> lim w' = lim w"
  by (auto simp: sweep_def split: option.splits sum.splits)

lemma counted_invoke_done:
  assumes "m_recursionDepth w = Suc d"
    and "counted (log (Called (m_recursionDepth w) node x) w) wb (Suc d) True"
    and "e = Returned (m_recursionDepth wb) node r \<or> e = Raised (m_recursionDepth wb) node s"
  shows "counted w (log e wb) d True"
  using assms by (auto simp: counted_def log_def accurate_append nesting_append above_mono_all)

lemma counted_invoke_cut:
  assumes "m_recursionDepth w = Suc d"
    and "counted (log (Called (m_recursionDepth w) node x) w) wb (Suc d) fin"
  shows "counted w wb d False"
  using assms by (auto simp: counted_def log_def accurate_append nesting_append above_mono_all)

lemma counted_iteration:
  assumes "counted (scoped_increment w) w2 (m_recursionDepth w) True"
  shows "counted w (scoped_decrement w2) (m_recursionDepth w) True"
  using assms by (auto simp: counted_def scoped_increment_def scoped_decrement_def)

lemma counted_iteration_cut:
  assumes "counted (scoped_increment w) w2 (m_recursionDepth w) fin"
  shows "counted w w2 (m_recursionDepth w) False"
  using assms by (auto simp: counted_def scoped_increment_def)

lemma counted_consult:
  assumes "disconnect n con (log (Consulted (m_recursionDepth w)) w) = (a, w1)"
  shows "counted w w1 (m_recursionDepth w) True"
  using disconnect_fields [OF assms] by (auto simp: counted_def log_def)

lemma completed_cases:
  obtains v where "r = Inr v" | e where "r = Inl (Slot_error e)"
  | "r = Inl Memory_fault" | "r = Inl Out_of_fuel"
  by (cases r) (auto intro: error.exhaust)

lemma counted_aux:
  "(\<forall>(p :: ('a, 'r, 'g, 'u) prog) w r w'.
       run n p w = (r, w') \<longrightarrow> counted w w' (m_recursionDepth w) (completed r)) \<and>
   (\<forall>f x agg ctl g node (w :: ('a, 'r, 'g, 'u) signal) r w' d.
       invoke n f x agg ctl g node w = (r, w') \<longrightarrow> m_recursionDepth w = Suc d \<longrightarrow>
       counted w w' d (completed r)) \<and>
   (\<forall>x agg ctl node ok g (w :: ('a, 'r, 'g, 'u) signal) r w'.
       emit_loop n x agg ctl node ok g w = (r, w') \<longrightarrow>
       counted w w' (m_recursionDepth w) (completed r)) \<and>
   (\<forall>x agg g0 ctl (w :: ('a, 'r, 'g, 'u) signal) r w'.
       emit n x agg g0 ctl w = (r, w') \<longrightarrow> counted w w' (m_recursionDepth w) (completed r))"
proof (induction n)
  case 0
  show ?case by (simp add: counted_refl)
next
  case (Suc n)
  note R = Suc.IH [THEN conjunct1, rule_format]
  note I = Suc.IH [THEN conjunct2, THEN conjunct1, rule_format]
  note L = Suc.IH [THEN conjunct2, THEN conjunct2, THEN conjunct1, rule_format]
  note E = Suc.IH [THEN conjunct2, THEN conjunct2, THEN conjunct2, rule_format]
  have cont: "counted w w' (m_recursionDepth w) fin"
    if "counted w w1 (m_recursionDepth w) True" "counted w1 w' (m_recursionDepth w1) fin"
    for w w1 w' :: "('a, 'r, 'g, 'u) signal" and fin
  proof -
    from that(1) have "m_recursionDepth w1 = m_recursionDepth w" by (auto simp: counted_def)
    with that show ?thesis by (auto intro: counted_trans)
  qed
  have run_case: "counted w w' (m_recursionDepth w) (completed r)"
    if run: "run (Suc n) p w = (r, w')"
    for p :: "('a, 'r, 'g, 'u) prog" and w r w'
  proof (cases p)
    case (Ret v)
    with run show ?thesis by (auto simp: counted_refl)
  next
    case (Throw e)
    with run show ?thesis by (auto simp: counted_refl)
  next
    case (Local f)
    obtain u p' where f: "f (user w) = (u, p')" by (cases "f (user w)")
    with run Local have "run n p' (w\<lparr>user := u\<rparr>) = (r, w')" by simp
    from R [OF this] have "counted (w\<lparr>user := u\<rparr>) w' (m_recursionDepth (w\<lparr>user := u\<rparr>)) (completed r)" .
    moreover have "counted w (w\<lparr>user := u\<rparr>) (m_recursionDepth w) True"
      by (rule counted_same) simp_all
    ultimately show ?thesis by (rule cont [rotated])
  next
    case (Connect f c)
    obtain a w1 where c: "connect f w = (a, w1)" by (cases "connect f w")
    from connect_fields [OF c] have s: "counted w w1 (m_recursionDepth w) fin" for fin
      by (auto intro: counted_same)
    show ?thesis
    proof (cases a)
      case (Inl e)
      with run Connect c s show ?thesis by auto
    next
      case (Inr con)
      with run Connect c have "run n (c con) w1 = (r, w')" by simp
      from cont [OF s R [OF this]] show ?thesis .
    qed
  next
    case (Disconnect con c)
    obtain a w1 where d: "disconnect n con (log (Consulted (m_recursionDepth w)) w) = (a, w1)"
      by (cases "disconnect n con (log (Consulted (m_recursionDepth w)) w)")
    note s = counted_consult [OF d]
    show ?thesis
    proof (cases a)
      case (Inl e)
      with run Disconnect d have "r = Inl e" "w' = w1" by auto
      moreover from disconnect_mono have "True" by simp
      ultimately show ?thesis using s counted_weaken [OF s]
        by (cases "completed r") auto
    next
      case (Inr b)
      with run Disconnect d have "run n (c b) w1 = (r, w')" by simp
      from cont [OF s R [OF this]] show ?thesis .
    qed
  next
    case (Connected con c)
    show ?thesis
    proof (cases "is_connected n con w")
      case (Inl e)
      with run Connected show ?thesis by (auto simp: counted_refl)
    next
      case (Inr b)
      with run Connected have "run n (c b) w = (r, w')" by simp
      from R [OF this] show ?thesis .
    qed
  next
    case (Emit x agg g0 ctl c handler)
    obtain a w1 where d: "emit n x agg g0 ctl w = (a, w1)" by (cases "emit n x agg g0 ctl w")
    note s = E [OF d]
    show ?thesis
    proof (cases a rule: completed_cases)
      case (1 v)
      with run Emit d have "run n (c v) w1 = (r, w')" by simp
      from cont [OF _ R [OF this]] s 1 show ?thesis by simp
    next
      case (2 e)
      with run Emit d have "run n (handler e) w1 = (r, w')" by simp
      from cont [OF _ R [OF this]] s 2 show ?thesis by simp
    next
      case 3
      with run Emit d s show ?thesis by auto
    next
      case 4
      with run Emit d s show ?thesis by auto
    qed
  qed
  have invoke_case: "counted w w' d (completed r)"
    if run: "invoke (Suc n) f x agg ctl g node w = (r, w')" and d: "m_recursionDepth w = Suc d"
    for f x agg ctl g node and w :: "('a, 'r, 'g, 'u) signal" and r w' d
  proof -
    let ?wc = "log (Called (m_recursionDepth w) node x) w"
    obtain a wb where b: "run n (f x) ?wc = (a, wb)" by (cases "run n (f x) ?wc")
    have dc: "m_recursionDepth ?wc = Suc d" using d by (simp add: log_def)
    from R [OF b] dc have s: "counted ?wc wb (Suc d) (completed a)" by simp
    show ?thesis
    proof (cases a rule: completed_cases)
      case (1 v)
      with run b have "r = Inr (ctl v, agg v g)"
        "w' = log (Returned (m_recursionDepth wb) node v) wb" by auto
      with counted_invoke_done [OF d, of node x wb _ v] s 1 show ?thesis by simp
    next
      case (2 e)
      with run b have "r = Inl (Slot_error e)"
        "w' = log (Raised (m_recursionDepth wb) node e) wb" by auto
      with counted_invoke_done [OF d, of node x wb _ _ e] s 2 show ?thesis by simp
    next
      case 3
      with run b have "r = Inl Memory_fault" "w' = wb" by auto
      with counted_invoke_cut [OF d s] show ?thesis by simp
    next
      case 4
      with run b have "r = Inl Out_of_fuel" "w' = wb" by auto
      with counted_invoke_cut [OF d s] show ?thesis by simp
    qed
  qed
  have loop_go: "counted w w' (m_recursionDepth w) (completed r)"
    if run: "emit_loop (Suc n) x agg ctl node True g w = (r, w')" and node: "node \<noteq> m_head w"
    for x agg ctl node g and w :: "('a, 'r, 'g, 'u) signal" and r w'
  proof (cases "load_function (heap (scoped_increment w)) node")
    case None
    with run node have "r = Inl Memory_fault" "w' = scoped_increment w" by (auto simp: Let_def)
    with counted_iteration_cut [OF counted_refl] show ?thesis by simp
  next
    case (Some fo)
    define step where "step = (case fo of None \<Rightarrow> (Inr (True, g), scoped_increment w)
        | Some f \<Rightarrow> invoke n f x agg ctl g node (scoped_increment w))"
    obtain a w2 where a: "step = (a, w2)" by (cases step)
    have n1: "emit_loop (Suc n) x agg ctl node True g w =
        (case step of
            (Inr (ok', g'), w2) \<Rightarrow>
              (case load_next (heap w2) node of
                 None \<Rightarrow> (Inl Memory_fault, w2)
               | Some nx \<Rightarrow> emit_loop n x agg ctl nx ok' g' (scoped_decrement w2))
          | (Inl (Slot_error e), w2) \<Rightarrow> (Inl (Slot_error e), scoped_decrement w2)
          | (Inl e, w2) \<Rightarrow> (Inl e, w2))"
      using node Some by (simp add: Let_def step_def)
    have s: "counted (scoped_increment w) w2 (m_recursionDepth w) (completed a)"
    proof (cases fo)
      case None
      with a have "a = Inr (True, g)" "w2 = scoped_increment w" by (simp_all add: step_def)
      then show ?thesis by (simp add: counted_refl)
    next
      case (Some f)
      with a have "invoke n f x agg ctl g node (scoped_increment w) = (a, w2)"
        by (simp add: step_def)
      from I [OF this, of "m_recursionDepth w"] show ?thesis by (simp add: scoped_increment_def)
    qed
    show ?thesis
    proof (cases a rule: completed_cases)
      case (1 v)
      obtain ok' g' where v: "v = (ok', g')" by (cases v)
      from s 1 have it: "counted w (scoped_decrement w2) (m_recursionDepth w) True"
        by (auto intro: counted_iteration)
      show ?thesis
      proof (cases "load_next (heap w2) node")
        case None
        with run a 1 v have "r = Inl Memory_fault" "w' = w2" unfolding n1 by auto
        with counted_iteration_cut [OF s] show ?thesis by simp
      next
        case (Some nx)
        with run a 1 v have "emit_loop n x agg ctl nx ok' g' (scoped_decrement w2) = (r, w')"
          unfolding n1 by auto
        from cont [OF it L [OF this]] show ?thesis .
      qed
    next
      case (2 e)
      with run a have "r = Inl (Slot_error e)" "w' = scoped_decrement w2" unfolding n1 by auto
      with s 2 show ?thesis by (auto intro: counted_iteration)
    next
      case 3
      with run a have "r = Inl Memory_fault" "w' = w2" unfolding n1 by auto
      with counted_iteration_cut [OF s] show ?thesis by simp
    next
      case 4
      with run a have "r = Inl Out_of_fuel" "w' = w2" unfolding n1 by auto
      with counted_iteration_cut [OF s] show ?thesis by simp
    qed
  qed
  have loop_case: "counted w w' (m_recursionDepth w) (completed r)"
    if run: "emit_loop (Suc n) x agg ctl node ok g w = (r, w')"
    for x agg ctl node ok g and w :: "('a, 'r, 'g, 'u) signal" and r w'
  proof (cases "node \<noteq> m_head w \<and> ok")
    case False
    with run show ?thesis by (auto simp: counted_refl)
  next
    case True
    then have "ok = True" by simp
    with run True loop_go show ?thesis by blast
  qed
  have emit_case: "counted w w' (m_recursionDepth w) (completed r)"
    if run: "emit (Suc n) x agg g0 ctl w = (r, w')"
    for x agg g0 ctl and w :: "('a, 'r, 'g, 'u) signal" and r w'
  proof (cases "m_head w \<noteq> 0")
    case False
    with run show ?thesis by (auto simp: counted_refl)
  next
    case True
    show ?thesis
    proof (cases "load_next (heap w) (m_head w)")
      case None
      with run True show ?thesis by (auto simp: counted_refl)
    next
      case (Some first)
      obtain a w1 where a: "emit_loop n x agg ctl first True g0 w = (a, w1)"
        by (cases "emit_loop n x agg ctl first True g0 w")
      note s = L [OF a]
      show ?thesis
      proof (cases a rule: completed_cases)
        case (1 v)
        obtain ok g where v: "v = (ok, g)" by (cases v)
        show ?thesis
        proof (cases "m_recursionDepth w1 = 0 \<and> m_deactivations w1")
          case False
          with run a True Some 1 v have "r = Inr g" "w' = w1" by auto
          with s 1 show ?thesis by simp
        next
          case sw: True
          obtain b w2 where b: "sweep n w1 = (b, w2)" by (cases "sweep n w1")
          from sweep_fields [OF b] have s2: "counted w1 w2 (m_recursionDepth w1) fin" for fin
            by (auto intro: counted_same)
          from s 1 have s1: "counted w w1 (m_recursionDepth w) True" by simp
          from run a True Some 1 v sw b have "w' = w2" by (cases b) auto
          with cont [OF s1 s2] show ?thesis by simp
        qed
      next
        case (2 e)
        with run a True Some have "r = Inl (Slot_error e)" "w' = w1" by auto
        with s 2 show ?thesis by simp
      next
        case 3
        with run a True Some have "r = Inl Memory_fault" "w' = w1" by auto
        with s 3 show ?thesis by simp
      next
        case 4
        with run a True Some have "r = Inl Out_of_fuel" "w' = w1" by auto
        with s 4 show ?thesis by simp
      qed
    qed
  qed
  show ?case using run_case invoke_case loop_case emit_case by blast
qed

subsection \<open>The ring during an emission\<close>

lemma nodes_below_lim:
  assumes "well_formed w" and "nodes w xs" and "m_head w \<noteq> 0" and "p \<in> set (m_head w # xs)"
  shows "p < lim w" and "p \<noteq> 0" and "heap w p \<noteq> None"
proof -
  from assms(2,3) have r: "ring (heap w) (m_head w) xs" by (simp add: nodes_def)
  from ring_allocated [OF r assms(4)] show a: "heap w p \<noteq> None" .
  with assms(1) show "p < lim w" unfolding well_formed_def by (meson not_le)
  from a assms(1) show "p \<noteq> 0" unfolding well_formed_def by metis
qed

lemma grown_refl: "well_formed w \<Longrightarrow> nodes w xs \<Longrightarrow> grown w w xs"
  unfolding grown_def by (metis append_Nil2 le_refl)

lemma grown_trans:
  assumes 1: "grown w w1 xs" and 2: "\<And>ys. nodes w1 ys \<Longrightarrow> grown w1 w2 ys"
  shows "grown w w2 xs"
proof -
  from 1 obtain ys1 where ys1: "nodes w1 (xs @ ys1)" unfolding grown_def by blast
  from 2 [OF this] have g: "grown w1 w2 (xs @ ys1)" .
  then obtain ys2 where "nodes w2 ((xs @ ys1) @ ys2)" unfolding grown_def by blast
  then have n2: "\<exists>ys. nodes w2 (xs @ ys)" by (metis append_assoc)
  have f: "load_function (heap w2) p = load_function (heap w) p \<or>
           load_function (heap w2) p = Some None \<and> m_deactivations w2" if "p \<in> set xs" for p
  proof -
    from that 1 have a: "load_function (heap w1) p = load_function (heap w) p \<or>
           load_function (heap w1) p = Some None \<and> m_deactivations w1"
      unfolding grown_def by blast
    from that g have b: "load_function (heap w2) p = load_function (heap w1) p \<or>
           load_function (heap w2) p = Some None \<and> m_deactivations w2"
      unfolding grown_def by simp
    from g have c: "m_deactivations w1 \<longrightarrow> m_deactivations w2" unfolding grown_def by blast
    from a b c show ?thesis by auto
  qed
  from 1 g n2 f show ?thesis unfolding grown_def by (auto simp: le_trans)
qed

lemma same_ring_wf:
  assumes "heap w' = heap w" and "lim w' = lim w" and "m_head w' = m_head w"
    and "m_deactivations w' = m_deactivations w"
  shows "well_formed w' = well_formed w" and "nodes w' = nodes w"
proof -
  show "well_formed w' = well_formed w" using assms by (simp add: well_formed_def)
  have "nodes w' xs = nodes w xs" for xs using assms by (simp add: nodes_def)
  then show "nodes w' = nodes w" by (rule ext)
qed

lemma grown_same_left:
  assumes "heap w' = heap w" and "lim w' = lim w" and "m_head w' = m_head w"
    and "m_deactivations w' = m_deactivations w" and "this w' = this w"
  shows "grown w' v xs = grown w v xs"
  using assms by (simp add: grown_def)

lemma grown_same_right:
  assumes "heap w' = heap w" and "lim w' = lim w" and "m_head w' = m_head w"
    and "m_deactivations w' = m_deactivations w" and "this w' = this w"
  shows "grown v w' xs = grown v w xs"
  using assms same_ring_wf [OF assms(1-4)] by (simp add: grown_def)

lemma connect_grown:
  assumes w: "well_formed w" and xs: "nodes w xs" and hd: "m_head w \<noteq> 0"
    and c: "connect f w = (r, w')"
  shows "(\<exists>con. r = Inr con) \<and> grown w w' xs"
proof -
  from connect_preserves [OF w xs, of f] c hd obtain q where
    q: "r = Inr (this w, q)" "lim w \<le> q" "lim w' = Suc q" "m_head w' = m_head w"
      "well_formed w'" "nodes w' (xs @ [q])"
      "\<forall>p<lim w. load_function (heap w') p = load_function (heap w) p"
      "this w' = this w" "m_deactivations w' = m_deactivations w" by auto
  have "load_function (heap w') p = load_function (heap w) p" if "p \<in> set xs" for p
    using nodes_below_lim(1) [OF w xs hd, of p] that q(7) by simp
  with q show ?thesis unfolding grown_def by auto
qed

lemma disconnect_grown:
  assumes w: "well_formed w" and xs: "nodes w xs" and hd: "m_head w \<noteq> 0"
    and busy: "m_recursionDepth w \<noteq> 0"
    and d: "disconnect n con w = (r, w')" and r: "r \<noteq> Inl Out_of_fuel"
  shows "(\<exists>b. r = Inr b) \<and> grown w w' xs"
proof -
  define m where "m = max n (Suc (length xs))"
  have m: "n \<le> m" "length xs < m" by (simp_all add: m_def)
  from disconnect_mono [OF d r m(1)] have dm: "disconnect m con w = (r, w')" .
  show ?thesis
  proof (cases "fst con = this w \<and> snd con \<in> set (m_head w # xs)")
    case False
    with hd have "fst con \<noteq> this w \<or> (snd con \<notin> set xs \<and> (snd con \<noteq> m_head w \<or> m_head w = 0))"
      by auto
    from disconnect_absent [OF xs m(2) this] dm have "r = Inr False" "w' = w" by simp_all
    with grown_refl [OF w xs] show ?thesis by blast
  next
    case True
    then have con: "con = (this w, snd con)" and x: "snd con \<in> set (m_head w # xs)"
      by (simp_all add: prod_eq_iff)
    from disconnect_busy [OF xs hd m(2) x busy] obtain H where
      H: "disconnect m (this w, snd con) w = (Inr True, w\<lparr>heap := H, m_deactivations := True\<rparr>)"
      "ring H (m_head w) xs"
      "load_function H = (load_function (heap w))(snd con \<mapsto> None)" by blast
    from H(1) dm con have rw: "r = Inr True" "w' = w\<lparr>heap := H, m_deactivations := True\<rparr>"
      by (metis Pair_inject)+
    have alloc: "heap w (snd con) \<noteq> None" by (rule nodes_below_lim(3) [OF w xs hd x])
    have dom: "H p = None \<longleftrightarrow> heap w p = None" for p
      using H(3) alloc by (metis fun_upd_apply load_None_iff(3) option.distinct(1))
    from w have "well_formed w'" unfolding well_formed_def rw(2) using dom H(2) hd by auto
    moreover have "nodes w' (xs @ [])" using H(2) hd by (simp add: nodes_def rw(2))
    moreover have "load_function (heap w') p = load_function (heap w) p \<or>
        load_function (heap w') p = Some None \<and> m_deactivations w'" for p
      by (simp add: rw(2) H(3))
    ultimately show ?thesis unfolding grown_def using rw by (auto simp del: append_Nil2)
  qed
qed

lemma is_connected_no_fault:
  assumes "nodes w xs" and "is_connected n con w = r" and "r \<noteq> Inl Out_of_fuel"
  shows "\<exists>b. r = Inr b"
proof -
  define m where "m = max n (Suc (length xs))"
  have m: "n \<le> m" "length xs < m" by (simp_all add: m_def)
  from is_connected_mono [OF assms(2,3) m(1)] is_connected_nodes [OF assms(1) m(2), of con]
  show ?thesis by metis
qed

lemma ring_successor:
  assumes "ring h s zs" and "node \<in> set zs"
  shows "\<exists>nx. load_next h node = Some nx \<and> nx \<in> set (s # zs)"
proof -
  from assms(2) obtain as bs where zs: "zs = as @ node # bs" by (auto dest: split_list)
  from ring_next_mid [of h s as node bs] assms(1) zs
  have "load_next h node = Some (hd (bs @ [s]))" by simp
  moreover have "hd (bs @ [s]) \<in> set (s # zs)" unfolding zs by (cases bs) auto
  ultimately show ?thesis by blast
qed

lemma run_depth:
  "run n p w = (r, w') \<Longrightarrow> completed r \<Longrightarrow> m_recursionDepth w' = m_recursionDepth w"
  using counted_aux [of n, THEN conjunct1, rule_format, of p w r w'] by (auto simp: counted_def)

lemma emit_loop_depth:
  "emit_loop n x agg ctl node ok g w = (r, w') \<Longrightarrow> completed r \<Longrightarrow>
   m_recursionDepth w' = m_recursionDepth w"
  using counted_aux [of n, THEN conjunct2, THEN conjunct2, THEN conjunct1, rule_format,
      of x agg ctl node ok g w r w'] by (auto simp: counted_def)

lemma emit_depth:
  "emit n x agg g0 ctl w = (r, w') \<Longrightarrow> completed r \<Longrightarrow> m_recursionDepth w' = m_recursionDepth w"
  using counted_aux [of n, THEN conjunct2, THEN conjunct2, THEN conjunct2, rule_format,
      of x agg g0 ctl w r w'] by (auto simp: counted_def)

lemma not_cut_completed: "r \<noteq> Inl Out_of_fuel \<Longrightarrow> r \<noteq> Inl Memory_fault \<Longrightarrow> completed r"
  by (cases r rule: completed_cases) auto

lemma same_ring_all:
  assumes "heap w' = heap w" and "lim w' = lim w" and "m_head w' = m_head w"
    and "m_deactivations w' = m_deactivations w" and "this w' = this w"
  shows "well_formed w' = well_formed w" and "nodes w' = nodes w"
    and "grown v w' xs = grown v w xs" and "grown w' v xs = grown w v xs"
  using same_ring_wf [OF assms(1-4)] grown_same_right [OF assms] grown_same_left [OF assms]
  by blast+

lemma log_fields:
  "heap (log e w) = heap w" "lim (log e w) = lim w" "m_head (log e w) = m_head w"
  "m_deactivations (log e w) = m_deactivations w" "this (log e w) = this w"
  "m_recursionDepth (log e w) = m_recursionDepth w" "user (log e w) = user w"
  "events (log e w) = events w @ [e]"
  by (simp_all add: log_def)

lemma scoped_increment_fields:
  "heap (scoped_increment w) = heap w" "lim (scoped_increment w) = lim w"
  "m_head (scoped_increment w) = m_head w"
  "m_deactivations (scoped_increment w) = m_deactivations w"
  "this (scoped_increment w) = this w"
  "m_recursionDepth (scoped_increment w) = Suc (m_recursionDepth w)"
  "user (scoped_increment w) = user w" "events (scoped_increment w) = events w"
  by (simp_all add: scoped_increment_def)

lemma scoped_decrement_fields:
  "heap (scoped_decrement w) = heap w" "lim (scoped_decrement w) = lim w"
  "m_head (scoped_decrement w) = m_head w"
  "m_deactivations (scoped_decrement w) = m_deactivations w"
  "this (scoped_decrement w) = this w"
  "m_recursionDepth (scoped_decrement w) = m_recursionDepth w - 1"
  "user (scoped_decrement w) = user w" "events (scoped_decrement w) = events w"
  by (simp_all add: scoped_decrement_def)

lemmas log_ring = same_ring_all [OF log_fields(1-5)] log_fields(1,3,6)

lemmas scoped_increment_ring =
  same_ring_all [OF scoped_increment_fields(1-5)] scoped_increment_fields(1,3,6)

lemmas scoped_decrement_ring =
  same_ring_all [OF scoped_decrement_fields(1-5)] scoped_decrement_fields(1,3)

lemma user_update_ring:
  "well_formed (w\<lparr>user := u\<rparr>) = well_formed w" "nodes (w\<lparr>user := u\<rparr>) = nodes w"
  "grown v (w\<lparr>user := u\<rparr>) xs = grown v w xs" "grown (w\<lparr>user := u\<rparr>) v xs = grown w v xs"
  by (rule same_ring_all; simp)+

lemma grown_aux:
  "(\<forall>(p :: ('a, 'r, 'g, 'u) prog) w r w' xs.
       run n p w = (r, w') \<longrightarrow> well_formed w \<longrightarrow> nodes w xs \<longrightarrow> m_head w \<noteq> 0 \<longrightarrow>
       m_recursionDepth w \<noteq> 0 \<longrightarrow> r \<noteq> Inl Out_of_fuel \<longrightarrow>
       r \<noteq> Inl Memory_fault \<and> grown w w' xs) \<and>
   (\<forall>f x agg ctl g node (w :: ('a, 'r, 'g, 'u) signal) r w' xs.
       invoke n f x agg ctl g node w = (r, w') \<longrightarrow> well_formed w \<longrightarrow> nodes w xs \<longrightarrow>
       m_head w \<noteq> 0 \<longrightarrow> m_recursionDepth w \<noteq> 0 \<longrightarrow> r \<noteq> Inl Out_of_fuel \<longrightarrow>
       r \<noteq> Inl Memory_fault \<and> grown w w' xs) \<and>
   (\<forall>x agg ctl node ok g (w :: ('a, 'r, 'g, 'u) signal) r w' xs.
       emit_loop n x agg ctl node ok g w = (r, w') \<longrightarrow> well_formed w \<longrightarrow> nodes w xs \<longrightarrow>
       m_head w \<noteq> 0 \<longrightarrow> node \<in> set (m_head w # xs) \<longrightarrow> r \<noteq> Inl Out_of_fuel \<longrightarrow>
       r \<noteq> Inl Memory_fault \<and> grown w w' xs) \<and>
   (\<forall>x agg g0 ctl (w :: ('a, 'r, 'g, 'u) signal) r w' xs.
       emit n x agg g0 ctl w = (r, w') \<longrightarrow> well_formed w \<longrightarrow> nodes w xs \<longrightarrow>
       m_head w \<noteq> 0 \<longrightarrow> m_recursionDepth w \<noteq> 0 \<longrightarrow> r \<noteq> Inl Out_of_fuel \<longrightarrow>
       r \<noteq> Inl Memory_fault \<and> grown w w' xs)"
proof (induction n)
  case 0
  show ?case by simp
next
  case (Suc n)
  note R = Suc.IH [THEN conjunct1, rule_format]
  note I = Suc.IH [THEN conjunct2, THEN conjunct1, rule_format]
  note L = Suc.IH [THEN conjunct2, THEN conjunct2, THEN conjunct1, rule_format]
  note E = Suc.IH [THEN conjunct2, THEN conjunct2, THEN conjunct2, rule_format]
  have cont: "r \<noteq> Inl Memory_fault \<and> grown w w' xs"
    if g: "grown w w1 xs" and hd: "m_head w \<noteq> 0"
      and d: "m_recursionDepth w1 \<noteq> 0" and run: "run n p w1 = (r, w')" and r: "r \<noteq> Inl Out_of_fuel"
    for w w1 w' :: "('a, 'r, 'g, 'u) signal" and xs r and p :: "('a, 'r, 'g, 'u) prog"
  proof -
    from g have w1: "well_formed w1" "m_head w1 \<noteq> 0" using hd by (simp_all add: grown_def)
    have step: "r \<noteq> Inl Memory_fault \<and> grown w1 w' ys" if "nodes w1 ys" for ys
      by (rule R [OF run w1(1) that w1(2) d r])
    from g obtain ys where "nodes w1 (xs @ ys)" unfolding grown_def by blast
    from step [OF this] have "r \<noteq> Inl Memory_fault" by simp
    moreover have "grown w w' xs"
      by (rule grown_trans [OF g]) (rule step [THEN conjunct2])
    ultimately show ?thesis by simp
  qed
  have run_case: "r \<noteq> Inl Memory_fault \<and> grown w w' xs"
    if run: "run (Suc n) p w = (r, w')" and w: "well_formed w" and xs: "nodes w xs"
      and hd: "m_head w \<noteq> 0" and d: "m_recursionDepth w \<noteq> 0" and r: "r \<noteq> Inl Out_of_fuel"
    for p :: "('a, 'r, 'g, 'u) prog" and w r w' xs
  proof (cases p)
    case (Ret v)
    with run grown_refl [OF w xs] show ?thesis by auto
  next
    case (Throw e)
    with run grown_refl [OF w xs] show ?thesis by auto
  next
    case (Local f)
    obtain u p' where f: "f (user w) = (u, p')" by (cases "f (user w)")
    with run Local have run': "run n p' (w\<lparr>user := u\<rparr>) = (r, w')" by simp
    have "grown w (w\<lparr>user := u\<rparr>) xs"
      using grown_refl [OF w xs] by (simp add: user_update_ring)
    from cont [OF this hd _ run' r] d show ?thesis by simp
  next
    case (Connect f c)
    obtain a w1 where c: "connect f w = (a, w1)" by (cases "connect f w")
    from connect_grown [OF w xs hd c] obtain con where a: "a = Inr con" and g: "grown w w1 xs"
      by blast
    from run Connect c a have run': "run n (c con) w1 = (r, w')" by simp
    from connect_fields [OF c] d have "m_recursionDepth w1 \<noteq> 0" by simp
    from cont [OF g hd this run' r] show ?thesis .
  next
    case (Disconnect con c)
    let ?w0 = "log (Consulted (m_recursionDepth w)) w"
    obtain a w1 where dc: "disconnect n con ?w0 = (a, w1)" by (cases "disconnect n con ?w0")
    have a: "a \<noteq> Inl Out_of_fuel" using run r Disconnect dc by (cases a) auto
    have w0: "well_formed ?w0" "nodes ?w0 xs" "m_head ?w0 \<noteq> 0" "m_recursionDepth ?w0 \<noteq> 0"
      using w xs hd d by (simp_all add: log_ring)
    from disconnect_grown [OF w0 dc a] obtain b where b: "a = Inr b" and g0: "grown ?w0 w1 xs"
      by blast
    from g0 have g: "grown w w1 xs" by (simp add: log_ring)
    from run Disconnect dc b have run': "run n (c b) w1 = (r, w')" by simp
    from disconnect_fields [OF dc] d have "m_recursionDepth w1 \<noteq> 0" by (simp add: log_ring)
    from cont [OF g hd this run' r] show ?thesis .
  next
    case (Connected con c)
    obtain a where a: "is_connected n con w = a" by simp
    have "a \<noteq> Inl Out_of_fuel" using run r Connected a by (cases a) auto
    from is_connected_no_fault [OF xs a this] obtain b where b: "a = Inr b" by blast
    with run Connected a have run': "run n (c b) w = (r, w')" by simp
    from cont [OF grown_refl [OF w xs] hd d run' r] show ?thesis .
  next
    case (Emit x agg g0 ctl c handler)
    obtain a w1 where e: "emit n x agg g0 ctl w = (a, w1)" by (cases "emit n x agg g0 ctl w")
    have a: "a \<noteq> Inl Out_of_fuel" using run r Emit e
      by (cases a rule: completed_cases) auto
    from E [OF e w xs hd d a] have a': "a \<noteq> Inl Memory_fault" and g: "grown w w1 xs" by simp_all
    from emit_depth [OF e not_cut_completed [OF a a']] d have d1: "m_recursionDepth w1 \<noteq> 0"
      by simp
    show ?thesis
    proof (cases a rule: completed_cases)
      case (1 v)
      with run Emit e have "run n (c v) w1 = (r, w')" by simp
      from cont [OF g hd d1 this r] show ?thesis .
    next
      case (2 s)
      with run Emit e have "run n (handler s) w1 = (r, w')" by simp
      from cont [OF g hd d1 this r] show ?thesis .
    qed (use a a' in auto)
  qed
  have invoke_case: "r \<noteq> Inl Memory_fault \<and> grown w w' xs"
    if run: "invoke (Suc n) f x agg ctl g node w = (r, w')" and w: "well_formed w"
      and xs: "nodes w xs" and hd: "m_head w \<noteq> 0" and d: "m_recursionDepth w \<noteq> 0"
      and r: "r \<noteq> Inl Out_of_fuel"
    for f x agg ctl g node and w :: "('a, 'r, 'g, 'u) signal" and r w' xs
  proof -
    let ?wc = "log (Called (m_recursionDepth w) node x) w"
    obtain a wb where b: "run n (f x) ?wc = (a, wb)" by (cases "run n (f x) ?wc")
    have a: "a \<noteq> Inl Out_of_fuel" using run r b by (cases a rule: completed_cases) auto
    have wc: "well_formed ?wc" "nodes ?wc xs" "m_head ?wc \<noteq> 0" "m_recursionDepth ?wc \<noteq> 0"
      using w xs hd d by (simp_all add: log_ring)
    from R [OF b wc a] have a': "a \<noteq> Inl Memory_fault" and g0: "grown ?wc wb xs" by simp_all
    from g0 have g: "grown w wb xs" by (simp add: log_ring)
    show ?thesis
    proof (cases a rule: completed_cases)
      case (1 v)
      with run b have "r = Inr (ctl v, agg v g)"
        "w' = log (Returned (m_recursionDepth wb) node v) wb" by auto
      with g show ?thesis by (simp add: log_ring)
    next
      case (2 e)
      with run b have "r = Inl (Slot_error e)"
        "w' = log (Raised (m_recursionDepth wb) node e) wb" by auto
      with g show ?thesis by (simp add: log_ring)
    qed (use a a' in auto)
  qed
  have loop_go: "r \<noteq> Inl Memory_fault \<and> grown w w' xs"
    if run: "emit_loop (Suc n) x agg ctl node True g w = (r, w')" and w: "well_formed w"
      and xs: "nodes w xs" and hd: "m_head w \<noteq> 0" and node: "node \<in> set xs"
      and r: "r \<noteq> Inl Out_of_fuel"
    for x agg ctl node g and w :: "('a, 'r, 'g, 'u) signal" and r w' xs
  proof -
    let ?w1 = "scoped_increment w"
    from xs hd have ring: "ring (heap w) (m_head w) xs" by (simp add: nodes_def)
    then have nh: "node \<noteq> m_head w" using node by (auto simp: ring_def)
    have w1: "well_formed ?w1" "nodes ?w1 xs" "m_head ?w1 \<noteq> 0" "m_recursionDepth ?w1 \<noteq> 0"
      using w xs hd by (simp_all add: scoped_increment_ring)
    from ring_allocated [OF ring, of node] node obtain fo where
      fo: "load_function (heap ?w1) node = Some fo"
      by (auto simp: scoped_increment_ring load_function_def)
    define step where "step = (case fo of None \<Rightarrow> (Inr (True, g), ?w1)
        | Some f \<Rightarrow> invoke n f x agg ctl g node ?w1)"
    obtain a w2 where a: "step = (a, w2)" by (cases step)
    have n1: "emit_loop (Suc n) x agg ctl node True g w =
        (case step of
            (Inr (ok', g'), w2) \<Rightarrow>
              (case load_next (heap w2) node of
                 None \<Rightarrow> (Inl Memory_fault, w2)
               | Some nx \<Rightarrow> emit_loop n x agg ctl nx ok' g' (scoped_decrement w2))
          | (Inl (Slot_error e), w2) \<Rightarrow> (Inl (Slot_error e), scoped_decrement w2)
          | (Inl e, w2) \<Rightarrow> (Inl e, w2))"
      using nh fo by (simp add: Let_def step_def)
    have a0: "a \<noteq> Inl Out_of_fuel" using run r a unfolding n1
      by (cases a rule: completed_cases) auto
    have s: "a \<noteq> Inl Memory_fault \<and> grown ?w1 w2 xs"
    proof (cases fo)
      case None
      with a have "a = Inr (True, g)" "w2 = ?w1" by (simp_all add: step_def)
      with grown_refl [OF w1(1,2)] show ?thesis by simp
    next
      case (Some f)
      with a have "invoke n f x agg ctl g node ?w1 = (a, w2)" by (simp add: step_def)
      from I [OF this w1 a0] show ?thesis .
    qed
    then have g2: "grown w w2 xs" by (simp add: scoped_increment_ring)
    then have g3: "grown w (scoped_decrement w2) xs"
      by (simp add: scoped_decrement_ring)
    show ?thesis
    proof (cases a rule: completed_cases)
      case (1 v)
      obtain ok' g' where v: "v = (ok', g')" by (cases v)
      from g2 obtain ys where ys: "nodes w2 (xs @ ys)" and w2: "well_formed w2" "m_head w2 = m_head w"
        unfolding grown_def by blast
      from ys w2(2) hd have ring2: "ring (heap w2) (m_head w) (xs @ ys)" by (simp add: nodes_def)
      from ring_successor [OF ring2, of node] node obtain nx where
        nx: "load_next (heap w2) node = Some nx" "nx \<in> set (m_head w # xs @ ys)" by auto
      let ?w3 = "scoped_decrement w2"
      from run a 1 v nx(1) have run': "emit_loop n x agg ctl nx ok' g' ?w3 = (r, w')"
        unfolding n1 by simp
      have w3: "well_formed ?w3" "m_head ?w3 \<noteq> 0" "m_head ?w3 = m_head w"
        using w2 hd by (simp_all add: scoped_decrement_ring)
      have step: "r \<noteq> Inl Memory_fault \<and> grown ?w3 w' zs" if "nodes ?w3 zs" for zs
      proof -
        from that have "nodes w2 zs" by (simp add: scoped_decrement_ring)
        from nodes_unique [OF this ys] have "zs = xs @ ys" .
        with nx(2) w3(3) have "nx \<in> set (m_head ?w3 # zs)" by simp
        from L [OF run' w3(1) that w3(2) this r] show ?thesis .
      qed
      have "nodes ?w3 (xs @ ys)" using ys by (simp add: scoped_decrement_ring)
      from step [OF this] have "r \<noteq> Inl Memory_fault" by simp
      moreover have "grown w w' xs"
        by (rule grown_trans [OF g3]) (rule step [THEN conjunct2])
      ultimately show ?thesis by simp
    next
      case (2 e)
      with run a have "r = Inl (Slot_error e)" "w' = scoped_decrement w2" unfolding n1 by auto
      with g3 show ?thesis by simp
    qed (use a0 s in auto)
  qed
  have loop_case: "r \<noteq> Inl Memory_fault \<and> grown w w' xs"
    if run: "emit_loop (Suc n) x agg ctl node ok g w = (r, w')" and w: "well_formed w"
      and xs: "nodes w xs" and hd: "m_head w \<noteq> 0" and node: "node \<in> set (m_head w # xs)"
      and r: "r \<noteq> Inl Out_of_fuel"
    for x agg ctl node ok g and w :: "('a, 'r, 'g, 'u) signal" and r w' xs
  proof (cases "node \<noteq> m_head w \<and> ok")
    case False
    with run grown_refl [OF w xs] show ?thesis by auto
  next
    case True
    then have "ok = True" "node \<in> set xs" using node by auto
    with that loop_go show ?thesis by blast
  qed
  have emit_case: "r \<noteq> Inl Memory_fault \<and> grown w w' xs"
    if run: "emit (Suc n) x agg g0 ctl w = (r, w')" and w: "well_formed w" and xs: "nodes w xs"
      and hd: "m_head w \<noteq> 0" and d: "m_recursionDepth w \<noteq> 0" and r: "r \<noteq> Inl Out_of_fuel"
    for x agg g0 ctl and w :: "('a, 'r, 'g, 'u) signal" and r w' xs
  proof -
    from xs hd have ring: "ring (heap w) (m_head w) xs" by (simp add: nodes_def)
    define first where "first = hd (xs @ [m_head w])"
    have first: "load_next (heap w) (m_head w) = Some first" "first \<in> set (m_head w # xs)"
      unfolding first_def using ring_next_sentinel [OF ring] by (simp, cases xs) auto
    obtain a w1 where a: "emit_loop n x agg ctl first True g0 w = (a, w1)"
      by (cases "emit_loop n x agg ctl first True g0 w")
    have a0: "a \<noteq> Inl Out_of_fuel" using run r a hd first(1)
      by (cases a rule: completed_cases) auto
    from L [OF a w xs hd first(2) a0] have a1: "a \<noteq> Inl Memory_fault" and g: "grown w w1 xs"
      by simp_all
    from emit_loop_depth [OF a not_cut_completed [OF a0 a1]] d
    have d1: "\<not> (m_recursionDepth w1 = 0 \<and> m_deactivations w1)" by simp
    show ?thesis
    proof (cases a rule: completed_cases)
      case (1 v)
      obtain ok g' where v: "v = (ok, g')" by (cases v)
      from run a hd first(1) 1 v d1 have "r = Inr g'" "w' = w1" by auto
      with g show ?thesis by simp
    next
      case (2 e)
      with run a hd first(1) have "r = Inl (Slot_error e)" "w' = w1" by auto
      with g show ?thesis by simp
    qed (use a0 a1 in auto)
  qed
  show ?case using run_case invoke_case loop_case emit_case by blast
qed

subsection \<open>Consequences for one emission\<close>

lemma emit_loop_grown:
  assumes "emit_loop n x agg ctl node ok g w = (r, w')" and "well_formed w" and "nodes w xs"
    and "m_head w \<noteq> 0" and "node \<in> set (m_head w # xs)" and "r \<noteq> Inl Out_of_fuel"
  shows "r \<noteq> Inl Memory_fault" and "grown w w' xs"
  using grown_aux [of n, THEN conjunct2, THEN conjunct2, THEN conjunct1, rule_format,
      OF assms] by simp_all


lemma run_counted:
  "run n p w = (r, w') \<Longrightarrow> counted w w' (m_recursionDepth w) (completed r)"
  by (rule counted_aux [THEN conjunct1, rule_format])

lemma emit_counted:
  "emit n x agg g0 ctl w = (r, w') \<Longrightarrow> counted w w' (m_recursionDepth w) (completed r)"
  by (rule counted_aux [THEN conjunct2, THEN conjunct2, THEN conjunct2, rule_format])

lemma emit_loop_counted:
  "emit_loop n x agg ctl node ok g w = (r, w') \<Longrightarrow>
   counted w w' (m_recursionDepth w) (completed r)"
  by (rule counted_aux [THEN conjunct2, THEN conjunct2, THEN conjunct1, rule_format])

text \<open>
  Claim C8. Whatever an emission does and however it ends, the log it writes is accurate:
  every slot call is entered with the counter one above the number of calls open before
  it, is left (by return or by exception) with the counter still counting it, and every
  \<open>disconnect\<close> issued by a slot reads a counter equal to the number of slot calls open at
  that moment. When the emission returns or is left by an exception, every call it
  entered has been left and the counter is back at its value before the emission.
\<close>
theorem counter_counts_open_calls:
  assumes "emit n x agg g0 ctl w = (r, w')"
  shows "\<exists>es. events w' = events w @ es \<and> accurate (m_recursionDepth w) es \<and>
              (completed r \<longrightarrow> nesting (m_recursionDepth w) es = m_recursionDepth w \<and>
                              m_recursionDepth w' = m_recursionDepth w)"
  using emit_counted [OF assms] unfolding counted_def by blast

lemma reentrant_signal_fields:
  "this reentrant_signal = 7" "m_head reentrant_signal = 1" "lim reentrant_signal = 5"
  "m_recursionDepth reentrant_signal = 0" "m_deactivations reentrant_signal = False"
  "events reentrant_signal = []"
  by code_simp+

lemma reentrant_signal_emit:
  "fst (emit 20 0 (\<lambda>r g. r) False (\<lambda>r. True) reentrant_signal) = Inr True"
  "events (snd (emit 20 0 (\<lambda>r g. r) False (\<lambda>r. True) reentrant_signal)) =
     [Called 1 2 0, Called 2 2 1, Consulted 2, Returned 2 2 True, Called 2 4 1,
      Returned 2 4 True, Returned 1 2 True, Called 1 4 0, Returned 1 4 True,
      Called 1 5 0, Returned 1 5 True]"
  by code_simp+

theorem counter_counts_open_calls_witness:
  "fst (emit 20 0 (\<lambda>r g. r) False (\<lambda>r. True) reentrant_signal) = Inr True \<and>
   events (snd (emit 20 0 (\<lambda>r g. r) False (\<lambda>r. True) reentrant_signal)) =
     [Called 1 2 0, Called 2 2 1, Consulted 2, Returned 2 2 True, Called 2 4 1,
      Returned 2 4 True, Returned 1 2 True, Called 1 4 0, Returned 1 4 True,
      Called 1 5 0, Returned 1 5 True] \<and>
   accurate 0
     [Called 1 2 0, Called 2 2 1, Consulted 2, Returned 2 2 True, Called 2 4 1,
      Returned 2 4 True, Returned 1 2 True, Called 1 4 0, Returned 1 4 True,
      Called 1 5 (0 :: nat), Returned 1 5 True] \<and>
   m_recursionDepth (snd (emit 20 0 (\<lambda>r g. r) False (\<lambda>r. True) reentrant_signal)) = 0"
proof -
  let ?E = "emit 20 0 (\<lambda>r g. r) False (\<lambda>r. True) reentrant_signal"
  have "?E = (fst ?E, snd ?E)" by simp
  from counter_counts_open_calls [OF this] obtain es where
    es: "events (snd ?E) = events reentrant_signal @ es"
      "accurate (m_recursionDepth reentrant_signal) es"
      "completed (fst ?E) \<longrightarrow> m_recursionDepth (snd ?E) = m_recursionDepth reentrant_signal"
    by blast
  from es(1) have "es = events (snd ?E)" by (simp add: reentrant_signal_fields)
  with es(2,3) show ?thesis
    by (simp add: reentrant_signal_fields reentrant_signal_emit)
qed

lemma sweep_result:
  assumes "nodes w ys" and "m_head w \<noteq> 0" and "sweep n w = (Inr u, w')"
  shows "w' = w\<lparr>heap := heap w', m_deactivations := False\<rparr> \<and>
         nodes w' (filter (active (heap w)) ys) \<and>
         load_function (heap w') =
           (\<lambda>p. if p \<in> set ys \<and> \<not> active (heap w) p then None else load_function (heap w) p)"
proof -
  define m where "m = max n (Suc (length ys))"
  have m: "n \<le> m" "length ys < m" by (simp_all add: m_def)
  from sweep_mono [OF assms(3) _ m(1)] have s: "sweep m w = (Inr u, w')" by simp
  from sweep_nodes [OF assms(1,2) m(2)] obtain H where
    H: "sweep m w = (Inr (), w\<lparr>heap := H, m_deactivations := False\<rparr>)"
    "ring H (m_head w) (filter (active (heap w)) ys)"
    "load_function H =
       (\<lambda>p. if p \<in> set ys \<and> \<not> active (heap w) p then None else load_function (heap w) p)"
    by blast
  from s H(1) have w': "w' = w\<lparr>heap := H, m_deactivations := False\<rparr>" by simp
  with H(2,3) assms(2) show ?thesis by (simp add: nodes_def)
qed

text \<open>
  Claim C2. When \<open>emit\<close> returns, its traversal loop has run to its end in some state
  \<open>w1\<close> in which every node of the ring at the start is still linked (followed by the
  nodes connected meanwhile) and the counter has its value from before the emission. If
  in \<open>w1\<close> the counter is zero and the flag is set, the final state is \<open>w1\<close> swept: the
  ring keeps exactly the nodes whose slot is present, the others are freed, the flag is
  cleared. Otherwise the final state is \<open>w1\<close> itself: an emission started with a non-zero
  counter (from inside a slot) removes nothing.
\<close>
theorem sweep_only_after_outermost_emission:
  assumes "well_formed w" and "nodes w xs" and "emit n x agg g0 ctl w = (Inr g, w')"
  shows "if m_head w = 0 then w' = w
         else \<exists>ok w1 ys.
           emit_loop (n - 1) x agg ctl (hd (xs @ [m_head w])) True g0 w = (Inr (ok, g), w1) \<and>
           nodes w1 (xs @ ys) \<and> m_recursionDepth w1 = m_recursionDepth w \<and>
           (if m_recursionDepth w1 = 0 \<and> m_deactivations w1
            then w' = w1\<lparr>heap := heap w', m_deactivations := False\<rparr> \<and>
                 nodes w' (filter (active (heap w1)) (xs @ ys)) \<and>
                 load_function (heap w') =
                   (\<lambda>p. if p \<in> set (xs @ ys) \<and> \<not> active (heap w1) p then None
                        else load_function (heap w1) p)
            else w' = w1)"
proof (cases "m_head w = 0")
  case True
  with assms(3) show ?thesis by (cases n) auto
next
  case False
  from assms(3) obtain m where n: "n = Suc m" by (cases n) auto
  from assms(2) False have ring: "ring (heap w) (m_head w) xs" by (simp add: nodes_def)
  define first where "first = hd (xs @ [m_head w])"
  have first: "load_next (heap w) (m_head w) = Some first" "first \<in> set (m_head w # xs)"
    unfolding first_def using ring_next_sentinel [OF ring] by (simp, cases xs) auto
  obtain a w1 where a: "emit_loop m x agg ctl first True g0 w = (a, w1)"
    by (cases "emit_loop m x agg ctl first True g0 w")
  from assms(3) a False first(1) obtain ok where ok: "a = Inr (ok, g)"
    unfolding n by (cases a) (auto split: if_splits prod.splits sum.splits)
  from emit_loop_grown(2) [OF a assms(1,2) False first(2)] ok have g: "grown w w1 xs" by simp
  then obtain ys where ys: "nodes w1 (xs @ ys)" and hd1: "m_head w1 = m_head w"
    unfolding grown_def by blast
  from emit_loop_depth [OF a] ok have d1: "m_recursionDepth w1 = m_recursionDepth w" by simp
  have "if m_recursionDepth w = 0 \<and> m_deactivations w1
            then w' = w1\<lparr>heap := heap w', m_deactivations := False\<rparr> \<and>
                 nodes w' (filter (active (heap w1)) (xs @ ys)) \<and>
                 load_function (heap w') =
                   (\<lambda>p. if p \<in> set (xs @ ys) \<and> \<not> active (heap w1) p then None
                        else load_function (heap w1) p)
            else w' = w1"
  proof (cases "m_recursionDepth w = 0 \<and> m_deactivations w1")
    case False
    with assms(3) a ok first(1) \<open>m_head w \<noteq> 0\<close> d1 show ?thesis unfolding n by auto
  next
    case True
    obtain b w2 where b: "sweep m w1 = (b, w2)" by (cases "sweep m w1")
    from assms(3) a ok first(1) \<open>m_head w \<noteq> 0\<close> d1 True b obtain u where
      "b = Inr u" "w2 = w'" unfolding n by (cases b) auto
    with b have "sweep m w1 = (Inr u, w')" by simp
    from sweep_result [OF ys _ this] hd1 \<open>m_head w \<noteq> 0\<close> True show ?thesis by simp
  qed
  with a ok ys d1 False show ?thesis unfolding n first_def by auto
qed


lemma reentrant_signal_nodes: "nodes reentrant_signal [2, 3, 4]"
  by (simp add: reentrant_signal_def new_signal_def connect_def new_node_def insert_node_def
      load_prev_def store_prev_def store_next_def nodes_def ring_def load_next_def)

lemma reentrant_signal_heap: "heap reentrant_signal p = None \<longleftrightarrow> p \<notin> {1, 2, 3, 4}"
  by (auto simp: reentrant_signal_def new_signal_def connect_def new_node_def insert_node_def
      load_prev_def store_prev_def store_next_def numeral_nat split: if_splits)

lemma reentrant_signal_wf: "well_formed reentrant_signal"
  unfolding well_formed_def using reentrant_signal_nodes
  by (auto simp: nodes_def reentrant_signal_fields reentrant_signal_heap)

lemma reentrant_signal_loop:
  "fst (emit_loop 19 0 (\<lambda>r g. r) (\<lambda>r. True) 2 True False reentrant_signal) = Inr (True, True)"
  "m_recursionDepth (snd (emit_loop 19 0 (\<lambda>r g. r) (\<lambda>r. True) 2 True False reentrant_signal)) = 0"
  "m_deactivations (snd (emit_loop 19 0 (\<lambda>r g. r) (\<lambda>r. True) 2 True False reentrant_signal))"
  "nodes (snd (emit_loop 19 0 (\<lambda>r g. r) (\<lambda>r. True) 2 True False reentrant_signal)) [2, 3, 4, 5]"
  "filter (active (heap (snd (emit_loop 19 0 (\<lambda>r g. r) (\<lambda>r. True) 2 True False reentrant_signal))))
     [2, 3, 4, 5] = [2, 4, 5]"
  by code_simp+

theorem sweep_only_after_outermost_emission_witness:
  "well_formed reentrant_signal \<and> nodes reentrant_signal [2, 3, 4] \<and>
   fst (emit 20 0 (\<lambda>r g. r) False (\<lambda>r. True) reentrant_signal) = Inr True \<and>
   nodes (snd (emit_loop 19 0 (\<lambda>r g. r) (\<lambda>r. True) 2 True False reentrant_signal)) [2, 3, 4, 5] \<and>
   m_deactivations (snd (emit_loop 19 0 (\<lambda>r g. r) (\<lambda>r. True) 2 True False reentrant_signal)) \<and>
   nodes (snd (emit 20 0 (\<lambda>r g. r) False (\<lambda>r. True) reentrant_signal)) [2, 4, 5] \<and>
   m_deactivations (snd (emit 20 0 (\<lambda>r g. r) False (\<lambda>r. True) reentrant_signal)) = False"
proof -
  let ?E = "emit 20 0 (\<lambda>r g. r) False (\<lambda>r. True) reentrant_signal"
  let ?L = "emit_loop 19 0 (\<lambda>r g. r) (\<lambda>r. True) 2 True False reentrant_signal"
  have e: "?E = (Inr True, snd ?E)"
    using reentrant_signal_emit(1) by (metis prod.collapse)
  have nz: "(m_head reentrant_signal = 0) = False" by (simp add: reentrant_signal_fields)
  note th = sweep_only_after_outermost_emission
    [OF reentrant_signal_wf reentrant_signal_nodes e, unfolded nz if_False]
  then obtain ok w1 ys where
    l0: "emit_loop (20 - 1) 0 (\<lambda>r g. r) (\<lambda>r. True) (hd ([2, 3, 4] @ [m_head reentrant_signal]))
          True False reentrant_signal = (Inr (ok, True), w1)"
    and ys: "nodes w1 ([2, 3, 4] @ ys)"
    and sw: "if m_recursionDepth w1 = 0 \<and> m_deactivations w1
            then snd ?E = w1\<lparr>heap := heap (snd ?E), m_deactivations := False\<rparr> \<and>
                 nodes (snd ?E) (filter (active (heap w1)) ([2, 3, 4] @ ys)) \<and>
                 load_function (heap (snd ?E)) =
                   (\<lambda>p. if p \<in> set ([2, 3, 4] @ ys) \<and> \<not> active (heap w1) p then None
                        else load_function (heap w1) p)
            else snd ?E = w1"
    by (elim exE conjE) (simp only: snd_conv)
  from l0 have l: "?L = (Inr (ok, True), w1)" by simp
  from l have w1: "w1 = snd ?L" by simp
  from nodes_unique [OF ys] reentrant_signal_loop(4) have ys5: "[2, 3, 4] @ ys = [2, 3, 4, 5]"
    unfolding w1 by simp
  have c: "m_recursionDepth w1 = 0 \<and> m_deactivations w1"
    unfolding w1 by (simp add: reentrant_signal_loop)
  from sw c have 1: "snd ?E = w1\<lparr>heap := heap (snd ?E), m_deactivations := False\<rparr>"
    and 2: "nodes (snd ?E) (filter (active (heap w1)) ([2, 3, 4] @ ys))" by simp_all
  from 2 have "nodes (snd ?E) [2, 4, 5]" unfolding ys5 w1 reentrant_signal_loop(5) .
  moreover from 1 have "m_deactivations (snd ?E) = False"
    by (metis world.select_convs(6) world.surjective world.update_convs(1,6))
  ultimately have "nodes (snd ?E) [2, 4, 5]" "m_deactivations (snd ?E) = False" .
  then show ?thesis
    using reentrant_signal_wf reentrant_signal_nodes reentrant_signal_emit(1)
      reentrant_signal_loop(3,4) by simp
qed

section \<open>An error raised by a slot\<close>

lemma invoke_depth:
  "invoke n f x agg ctl g node w = (r, w') \<Longrightarrow> completed r \<Longrightarrow>
   m_recursionDepth w' = m_recursionDepth w"
proof (cases n)
  case 0
  assume "invoke n f x agg ctl g node w = (r, w')" "completed r"
  with 0 show ?thesis by simp
next
  case (Suc m)
  assume a: "invoke n f x agg ctl g node w = (r, w')" "completed r"
  let ?wc = "log (Called (m_recursionDepth w) node x) w"
  obtain b wb where b: "run m (f x) ?wc = (b, wb)" by (cases "run m (f x) ?wc")
  with a Suc have "completed b" by (cases b rule: completed_cases) auto
  from run_depth [OF b this] have "m_recursionDepth wb = m_recursionDepth w"
    by (simp add: log_fields)
  with a Suc b show ?thesis by (cases b rule: completed_cases) (auto simp: log_fields)
qed

lemma invoke_events:
  assumes "invoke n f x agg ctl g node w = (r, w')" and "m_recursionDepth w = Suc d"
  shows "\<exists>bes. list_all (above (Suc d)) bes \<and>
    (case r of
       Inr v \<Rightarrow> \<exists>res. v = (ctl res, agg res g) \<and>
          events w' = events w @ Called (Suc d) node x # bes @ [Returned (Suc d) node res]
     | Inl (Slot_error e) \<Rightarrow>
          events w' = events w @ Called (Suc d) node x # bes @ [Raised (Suc d) node e]
     | Inl _ \<Rightarrow> events w' = events w \<or> events w' = events w @ Called (Suc d) node x # bes)"
proof (cases n)
  case 0
  with assms show ?thesis by (auto intro: exI [of _ "[]"])
next
  case (Suc m)
  let ?wc = "log (Called (m_recursionDepth w) node x) w"
  obtain b wb where b: "run m (f x) ?wc = (b, wb)" by (cases "run m (f x) ?wc")
  from run_counted [OF b] assms(2) obtain bes where
    bes: "events wb = events ?wc @ bes" "list_all (above (Suc d)) bes"
      "completed b \<longrightarrow> m_recursionDepth wb = Suc d"
    unfolding counted_def by (auto simp: log_fields)
  show ?thesis
  proof (cases b rule: completed_cases)
    case (1 v)
    with assms(1) Suc b have "r = Inr (ctl v, agg v g)"
      "w' = log (Returned (m_recursionDepth wb) node v) wb" by auto
    with bes 1 assms(2) show ?thesis by (auto simp: log_fields intro!: exI [of _ bes])
  next
    case (2 e)
    with assms(1) Suc b have "r = Inl (Slot_error e)"
      "w' = log (Raised (m_recursionDepth wb) node e) wb" by auto
    with bes 2 assms(2) show ?thesis by (auto simp: log_fields intro!: exI [of _ bes])
  next
    case 3
    with assms(1) Suc b have "r = Inl Memory_fault" "w' = wb" by auto
    with bes assms(2) show ?thesis by (auto simp: log_fields intro!: exI [of _ bes])
  next
    case 4
    with assms(1) Suc b have "r = Inl Out_of_fuel" "w' = wb" by auto
    with bes assms(2) show ?thesis by (auto simp: log_fields intro!: exI [of _ bes])
  qed
qed

lemma above_no_raise: "list_all (above (Suc d)) bes \<Longrightarrow> Raised (Suc d) p e \<notin> set bes"
  by (induction bes) auto

lemma above_no_call: "list_all (above (Suc d)) bes \<Longrightarrow> Called (Suc d) p x \<notin> set bes"
  by (induction bes) auto

lemma above_no_return: "list_all (above (Suc d)) bes \<Longrightarrow> Returned (Suc d) p v \<notin> set bes"
  by (induction bes) auto

lemma emit_loop_iteration:
  assumes "emit_loop (Suc n) x agg ctl node True g w = (r, w')" and "node \<noteq> m_head w"
  obtains
    (fault) "load_function (heap w) node = None" "r = Inl Memory_fault"
      "w' = scoped_increment w"
  | (skip) nx where "load_function (heap w) node = Some None"
      "load_next (heap w) node = Some nx" "emit_loop n x agg ctl nx True g w = (r, w')"
  | (call) f ok' g' w2 nx where "load_function (heap w) node = Some (Some f)"
      "invoke n f x agg ctl g node (scoped_increment w) = (Inr (ok', g'), w2)"
      "load_next (heap w2) node = Some nx"
      "emit_loop n x agg ctl nx ok' g' (scoped_decrement w2) = (r, w')"
  | (call_fault) f ok' g' where "load_function (heap w) node = Some (Some f)"
      "invoke n f x agg ctl g node (scoped_increment w) = (Inr (ok', g'), w')"
      "load_next (heap w') node = None" "r = Inl Memory_fault"
  | (raised) f e w2 where "load_function (heap w) node = Some (Some f)"
      "invoke n f x agg ctl g node (scoped_increment w) = (Inl (Slot_error e), w2)"
      "r = Inl (Slot_error e)" "w' = scoped_decrement w2"
  | (cut) f e where "load_function (heap w) node = Some (Some f)"
      "invoke n f x agg ctl g node (scoped_increment w) = (Inl e, w')"
      "e = Memory_fault \<or> e = Out_of_fuel" "r = Inl e"
proof (cases "load_function (heap w) node")
  case None
  with assms have "r = Inl Memory_fault" "w' = scoped_increment w"
    by (auto simp: Let_def scoped_increment_fields)
  with None fault show ?thesis by blast
next
  case (Some fo)
  show ?thesis
  proof (cases fo)
    case None
    have undo: "scoped_decrement (scoped_increment w) = w"
      by (simp add: scoped_decrement_def scoped_increment_def)
    show ?thesis
    proof (cases "load_next (heap w) node")
      case nn: None
      then have "load_function (heap w) node = None" by (simp add: load_None_iff)
      with Some show ?thesis by simp
    next
      case (Some nx)
      with assms \<open>load_function (heap w) node = Some fo\<close> None undo
      have "emit_loop n x agg ctl nx True g w = (r, w')"
        by (simp add: Let_def scoped_increment_fields)
      with skip \<open>load_function (heap w) node = Some fo\<close> None Some show ?thesis by blast
    qed
  next
    case (Some f)
    obtain a w2 where a: "invoke n f x agg ctl g node (scoped_increment w) = (a, w2)"
      by (cases "invoke n f x agg ctl g node (scoped_increment w)")
    have fn: "load_function (heap w) node = Some (Some f)"
      using \<open>load_function (heap w) node = Some fo\<close> Some by simp
    have n1: "emit_loop (Suc n) x agg ctl node True g w =
        (case (a, w2) of
            (Inr (ok', g'), w2) \<Rightarrow>
              (case load_next (heap w2) node of
                 None \<Rightarrow> (Inl Memory_fault, w2)
               | Some nx \<Rightarrow> emit_loop n x agg ctl nx ok' g' (scoped_decrement w2))
          | (Inl (Slot_error e), w2) \<Rightarrow> (Inl (Slot_error e), scoped_decrement w2)
          | (Inl e, w2) \<Rightarrow> (Inl e, w2))"
      using assms(2) fn a by (simp add: Let_def scoped_increment_fields)
    show ?thesis
    proof (cases a rule: completed_cases)
      case (1 v)
      obtain ok' g' where v: "v = (ok', g')" by (cases v)
      show ?thesis
      proof (cases "load_next (heap w2) node")
        case None
        with assms(1) 1 v have "r = Inl Memory_fault" "w' = w2" unfolding n1 by auto
        with call_fault [OF fn] a 1 v None show ?thesis by blast
      next
        case (Some nx)
        with assms(1) 1 v have "emit_loop n x agg ctl nx ok' g' (scoped_decrement w2) = (r, w')"
          unfolding n1 by auto
        with call [OF fn] a 1 v Some show ?thesis by blast
      qed
    next
      case (2 e)
      with assms(1) have "r = Inl (Slot_error e)" "w' = scoped_decrement w2"
        unfolding n1 by auto
      with raised [OF fn] a 2 show ?thesis by blast
    next
      case 3
      with assms(1) have "r = Inl Memory_fault" "w' = w2" unfolding n1 by auto
      with cut [OF fn] a 3 show ?thesis by blast
    next
      case 4
      with assms(1) have "r = Inl Out_of_fuel" "w' = w2" unfolding n1 by auto
      with cut [OF fn] a 4 show ?thesis by blast
    qed
  qed
qed

lemma raise_ends_loop:
  "emit_loop n x agg ctl node ok g w = (r, w') \<Longrightarrow> events w' = events w @ es \<Longrightarrow>
   Raised (Suc (m_recursionDepth w)) p e \<in> set es \<Longrightarrow>
   r = Inl (Slot_error e) \<and> last es = Raised (Suc (m_recursionDepth w)) p e"
proof (induction n arbitrary: node ok g w es)
  case 0
  then show ?case by simp
next
  case (Suc n)
  let ?d = "m_recursionDepth w"
  show ?case
  proof (cases "node \<noteq> m_head w \<and> ok")
    case False
    with Suc.prems show ?thesis by auto
  next
    case True
    then have ok: "ok = True" and nh: "node \<noteq> m_head w" by simp_all
    from Suc.prems(1) have run: "emit_loop (Suc n) x agg ctl node True g w = (r, w')"
      unfolding ok .
    from run nh show ?thesis
    proof (cases rule: emit_loop_iteration)
      case fault
      with Suc.prems(2,3) show ?thesis by (simp add: scoped_increment_fields)
    next
      case (skip nx)
      from Suc.IH [OF skip(3) Suc.prems(2,3)] show ?thesis .
    next
      case (call f ok' g' w2 nx)
      from invoke_events [OF call(2), of ?d] obtain bes res where
        bes: "list_all (above (Suc ?d)) bes"
        "events w2 = events w @ Called (Suc ?d) node x # bes @ [Returned (Suc ?d) node res]"
        by (auto simp: scoped_increment_fields)
      from invoke_depth [OF call(2)] have d2: "m_recursionDepth (scoped_decrement w2) = ?d"
        by (simp add: scoped_increment_fields scoped_decrement_fields)
      from emit_loop_counted [OF call(4)] obtain es2 where
        es2: "events w' = events (scoped_decrement w2) @ es2" unfolding counted_def by blast
      with bes(2) Suc.prems(2) have es: "es = Called (Suc ?d) node x # bes @ [Returned (Suc ?d) node res] @ es2"
        by (simp add: scoped_decrement_fields)
      with Suc.prems(3) above_no_raise [OF bes(1)] have in2: "Raised (Suc ?d) p e \<in> set es2"
        by auto
      from Suc.IH [OF call(4) es2] in2 d2
      have "r = Inl (Slot_error e)" "last es2 = Raised (Suc ?d) p e" by simp_all
      moreover from in2 have "es2 \<noteq> []" by auto
      ultimately show ?thesis unfolding es by simp
    next
      case (call_fault f ok' g')
      from invoke_events [OF call_fault(2), of ?d] obtain bes res where
        bes: "list_all (above (Suc ?d)) bes"
        "events w' = events w @ Called (Suc ?d) node x # bes @ [Returned (Suc ?d) node res]"
        by (auto simp: scoped_increment_fields)
      with Suc.prems(2,3) above_no_raise [OF bes(1)] show ?thesis by auto
    next
      case (raised f s w2)
      from invoke_events [OF raised(2), of ?d] obtain bes where
        bes: "list_all (above (Suc ?d)) bes"
        "events w2 = events w @ Called (Suc ?d) node x # bes @ [Raised (Suc ?d) node s]"
        by (auto simp: scoped_increment_fields)
      with Suc.prems(2) raised(4) have "es = Called (Suc ?d) node x # bes @ [Raised (Suc ?d) node s]"
        by (simp add: scoped_decrement_fields)
      with Suc.prems(3) above_no_raise [OF bes(1)] raised(3) show ?thesis by auto
    next
      case (cut f s)
      from invoke_events [OF cut(2), of ?d] cut(3) obtain bes where
        bes: "list_all (above (Suc ?d)) bes"
        "events w' = events w \<or> events w' = events w @ Called (Suc ?d) node x # bes"
        by (auto simp: scoped_increment_fields)
      with Suc.prems(2,3) above_no_raise [OF bes(1)] show ?thesis by auto
    qed
  qed
qed

lemma emit_run:
  assumes "emit n x agg g0 ctl w = (r, w')"
  obtains
    (fuel) "n = 0" "r = Inl Out_of_fuel" "w' = w"
  | (empty) "m_head w = 0" "r = Inr g0" "w' = w"
  | (fault) "m_head w \<noteq> 0" "load_next (heap w) (m_head w) = None" "r = Inl Memory_fault" "w' = w"
  | (stopped) m first e where "n = Suc m" "m_head w \<noteq> 0"
      "load_next (heap w) (m_head w) = Some first"
      "emit_loop m x agg ctl first True g0 w = (Inl e, w')" "r = Inl e"
  | (no_sweep) m first ok g where "n = Suc m" "m_head w \<noteq> 0"
      "load_next (heap w) (m_head w) = Some first"
      "emit_loop m x agg ctl first True g0 w = (Inr (ok, g), w')" "r = Inr g"
      "\<not> (m_recursionDepth w' = 0 \<and> m_deactivations w')"
  | (swept) m first ok g w1 b where "n = Suc m" "m_head w \<noteq> 0"
      "load_next (heap w) (m_head w) = Some first"
      "emit_loop m x agg ctl first True g0 w = (Inr (ok, g), w1)"
      "m_recursionDepth w1 = 0" "m_deactivations w1" "sweep m w1 = (b, w')"
      "r = (case b of Inr u \<Rightarrow> Inr g | Inl e \<Rightarrow> Inl e)"
proof (cases n)
  case 0
  with assms have "r = Inl Out_of_fuel" "w' = w" by simp_all
  with 0 show ?thesis by (rule fuel)
next
  case (Suc m)
  note e = assms [unfolded Suc emit.simps]
  show ?thesis
  proof (cases "m_head w = 0")
    case True
    with e have "r = Inr g0" "w' = w" by simp_all
    with True show ?thesis by (rule empty)
  next
    case False
    note e1 = e [unfolded if_P [OF False]]
    show ?thesis
    proof (cases "load_next (heap w) (m_head w)")
      case None
      with e1 have "r = Inl Memory_fault" "w' = w" by simp_all
      with False None show ?thesis by (rule fault)
    next
      case (Some first)
      note e2 = e1 [unfolded Some option.case]
      obtain a w1 where a: "emit_loop m x agg ctl first True g0 w = (a, w1)"
        by (cases "emit_loop m x agg ctl first True g0 w")
      note e3 = e2 [unfolded a prod.case]
      show ?thesis
      proof (cases a)
        case (Inl s)
        with e3 have "r = Inl s" "w' = w1" by simp_all
        with a Inl have "emit_loop m x agg ctl first True g0 w = (Inl s, w')" "r = Inl s"
          by simp_all
        with Suc False Some show ?thesis by (rule stopped)
      next
        case (Inr v)
        obtain ok g where v: "v = (ok, g)" by (cases v)
        note e4 = e3 [unfolded Inr v sum.case prod.case]
        show ?thesis
        proof (cases "m_recursionDepth w1 = 0 \<and> m_deactivations w1")
          case False
          with e4 have "r = Inr g" "w' = w1" by simp_all
          with a Inr v False
          have "emit_loop m x agg ctl first True g0 w = (Inr (ok, g), w')" "r = Inr g"
            "\<not> (m_recursionDepth w' = 0 \<and> m_deactivations w')" by simp_all
          with Suc \<open>m_head w \<noteq> 0\<close> Some show ?thesis by (rule no_sweep)
        next
          case True
          obtain b w2 where b: "sweep m w1 = (b, w2)" by (cases "sweep m w1")
          with e4 True
          have "r = (case b of Inr u \<Rightarrow> Inr g | Inl e \<Rightarrow> Inl e)" "w' = w2"
            by (simp_all split: sum.splits)
          with a Inr v True b
          have "emit_loop m x agg ctl first True g0 w = (Inr (ok, g), w1)"
            "m_recursionDepth w1 = 0" "m_deactivations w1" "sweep m w1 = (b, w')"
            "r = (case b of Inr u \<Rightarrow> Inr g | Inl e \<Rightarrow> Inl e)" by simp_all
          with Suc \<open>m_head w \<noteq> 0\<close> Some show ?thesis by (rule swept)
        qed
      qed
    qed
  qed
qed

lemma ring_first:
  assumes "nodes w xs" and "m_head w \<noteq> 0" and "load_next (heap w) (m_head w) = Some first"
  shows "first = hd (xs @ [m_head w])" and "first \<in> set (m_head w # xs)"
proof -
  from assms(1,2) have "ring (heap w) (m_head w) xs" by (simp add: nodes_def)
  from ring_next_sentinel [OF this] assms(3) show "first = hd (xs @ [m_head w])" by simp
  then show "first \<in> set (m_head w # xs)" by (cases xs) auto
qed

text \<open>
  Claim C5. An emission started on a well-formed signal in which a slot invoked by this
  emission raises an error \<open>e\<close>: \<open>emit\<close> returns that error to its caller; the raise is
  the last entry the emission writes to the log, so no slot after the raising one is
  invoked in this pass; the counter has its value from before the emission; the signal
  is well formed, every node of the ring at the start is still linked (no sweep has run),
  a slot is changed only by a deactivation, which sets the flag, and a flag set before
  is still set, so the deactivated nodes wait for the sweep of a later emission.
\<close>

theorem slot_error_leaves_emit:
  assumes "well_formed w" and "nodes w xs" and "emit n x agg g0 ctl w = (r, w')"
    and "events w' = events w @ es" and "Raised (Suc (m_recursionDepth w)) p e \<in> set es"
  shows "r = Inl (Slot_error e) \<and> last es = Raised (Suc (m_recursionDepth w)) p e \<and>
         m_recursionDepth w' = m_recursionDepth w \<and>
         well_formed w' \<and> (\<exists>ys. nodes w' (xs @ ys)) \<and>
         (\<forall>q \<in> set xs. load_function (heap w') q = load_function (heap w) q \<or>
                        load_function (heap w') q = Some None \<and> m_deactivations w') \<and>
         (m_deactivations w \<longrightarrow> m_deactivations w')"
proof -
  have loop: ?thesis
    if l: "emit_loop m x agg ctl first True g0 w = (a, w1)" and hd: "m_head w \<noteq> 0"
      and first: "load_next (heap w) (m_head w) = Some first"
      and ev: "events w' = events w1"
      and res: "a = Inl (Slot_error e) \<longrightarrow> r = Inl (Slot_error e) \<and> w' = w1"
    for m first a w1
  proof -
    from assms(4) ev have ev1: "events w1 = events w @ es" by simp
    from raise_ends_loop [OF l ev1 assms(5)] have a: "a = Inl (Slot_error e)"
      and last: "last es = Raised (Suc (m_recursionDepth w)) p e" by simp_all
    with res have r: "r = Inl (Slot_error e)" "w' = w1" by simp_all
    from emit_loop_depth [OF l] a r have d: "m_recursionDepth w' = m_recursionDepth w" by simp
    from emit_loop_grown(2) [OF l assms(1,2) hd ring_first(2) [OF assms(2) hd first]] a r
    have "grown w w' xs" by simp
    with r last d show ?thesis unfolding grown_def by simp
  qed
  from assms(3) show ?thesis
  proof (cases rule: emit_run)
    case fuel
    with assms(4,5) show ?thesis by simp
  next
    case empty
    with assms(4,5) show ?thesis by simp
  next
    case fault
    with assms(4,5) show ?thesis by simp
  next
    case (stopped m first s)
    show ?thesis by (rule loop [OF stopped(4,2,3)]) (simp_all add: stopped(5))
  next
    case (no_sweep m first ok g)
    show ?thesis by (rule loop [OF no_sweep(4,2,3)]) simp_all
  next
    case (swept m first ok g w1 b)
    from sweep_fields [OF swept(7)] have "events w' = events w1" by simp
    then show ?thesis by (rule loop [OF swept(4,2,3)]) simp
  qed
qed

lemma raising_signal_facts:
  "nodes raising_signal [2, 3, 4]"
  "m_recursionDepth raising_signal = 0" "events raising_signal = []"
  "m_head raising_signal = 1" "lim raising_signal = 5"
  "fst (emit 20 () (\<lambda>r g. r) False (\<lambda>r. True) raising_signal) = Inl (Slot_error ''failed'')"
  "events (snd (emit 20 () (\<lambda>r g. r) False (\<lambda>r. True) raising_signal)) =
     [Called 1 2 (), Consulted 1, Returned 1 2 True, Called 1 4 (), Raised 1 4 ''failed'']"
  by code_simp+

lemma raising_signal_heap: "heap raising_signal p = None \<longleftrightarrow> p \<notin> {1, 2, 3, 4}"
  by (auto simp: raising_signal_def new_signal_def connect_def new_node_def insert_node_def
      load_prev_def store_prev_def store_next_def numeral_nat split: if_splits)

lemma raising_signal_wf: "well_formed raising_signal"
  unfolding well_formed_def using raising_signal_facts(1)
  by (auto simp: nodes_def raising_signal_facts raising_signal_heap)

theorem slot_error_leaves_emit_witness:
  "well_formed raising_signal \<and> nodes raising_signal [2, 3, 4] \<and>
   events (snd (emit 20 () (\<lambda>r g. r) False (\<lambda>r. True) raising_signal)) =
     events raising_signal @
     [Called 1 2 (), Consulted 1, Returned 1 2 True, Called 1 4 (), Raised 1 4 ''failed''] \<and>
   Raised (Suc (m_recursionDepth raising_signal)) 4 ''failed'' \<in>
     set [Called 1 2 (), Consulted 1, Returned 1 2 True, Called 1 4 (), Raised 1 4 ''failed''] \<and>
   fst (emit 20 () (\<lambda>r g. r) False (\<lambda>r. True) raising_signal) = Inl (Slot_error ''failed'') \<and>
   m_recursionDepth (snd (emit 20 () (\<lambda>r g. r) False (\<lambda>r. True) raising_signal)) = 0 \<and>
   well_formed (snd (emit 20 () (\<lambda>r g. r) False (\<lambda>r. True) raising_signal)) \<and>
   active (heap raising_signal) 3 \<and>
   \<not> active (heap (snd (emit 20 () (\<lambda>r g. r) False (\<lambda>r. True) raising_signal))) 3 \<and>
   m_deactivations (snd (emit 20 () (\<lambda>r g. r) False (\<lambda>r. True) raising_signal))"
proof -
  let ?E = "emit 20 () (\<lambda>r g. r) False (\<lambda>r. True) raising_signal"
  let ?es = "[Called 1 2 (), Consulted 1, Returned 1 2 True, Called 1 4 (), Raised 1 4 ''failed'']
    :: (unit, bool) event list"
  have e: "?E = (fst ?E, snd ?E)" by simp
  have ev: "events (snd ?E) = events raising_signal @ ?es" by (simp add: raising_signal_facts)
  have r: "Raised (Suc (m_recursionDepth raising_signal)) 4 ''failed'' \<in> set ?es"
    by (simp add: raising_signal_facts)
  have 3: "active (heap raising_signal) 3" "\<not> active (heap (snd ?E)) 3"
    by code_simp+
  then have ne: "load_function (heap (snd ?E)) 3 \<noteq> load_function (heap raising_signal) 3"
    by (auto simp: active_load)
  have in3: "(3 :: nat) \<in> set [2, 3, 4]" by simp
  note th = slot_error_leaves_emit [OF raising_signal_wf raising_signal_facts(1) e ev r]
  from th have "fst ?E = Inl (Slot_error ''failed'')"
    "m_recursionDepth (snd ?E) = m_recursionDepth raising_signal" "well_formed (snd ?E)"
    by simp_all
  moreover from th in3 have
    "load_function (heap (snd ?E)) 3 = load_function (heap raising_signal) 3 \<or>
       load_function (heap (snd ?E)) 3 = Some None \<and> m_deactivations (snd ?E)"
    by blast
  with ne have "m_deactivations (snd ?E)" by simp
  ultimately show ?thesis
    using 3 ev r raising_signal_wf raising_signal_facts(1,2) by simp
qed

section \<open>Slots connected during an emission\<close>








section \<open>Registration order\<close>


lemma calls_append: "calls d (es @ fs) = calls d es @ calls d fs"
  by (induction d es rule: calls.induct) simp_all












end
